theory Spec2Isabelle
  imports Complex_Main "HOL-Library.Multiset" "HOL-Library.List_Lexorder" "HOL-Library.Char_ord"
begin

section \<open>Data frames\<close>

text \<open>
  The scripts under \<^verbatim>\<open>scripts/custom_dataset_prep\<close> move rows between Parquet files
  through polars data frames.  A frame is the list of its rows, in order; the row type
  \<open>'d\<close> is left open, since no script looks inside a row once it is loaded.
\<close>

type_synonym 'd frame = "'d list"

text \<open>\<^verbatim>\<open>df.head(n)\<close>, \<^verbatim>\<open>df.tail(n)\<close> and \<^verbatim>\<open>df.slice(offset, length)\<close>
  for non-negative arguments.  A slice that starts past the end is empty and one that
  runs past the end is cut there; none of them raises.\<close>

definition head_df :: "nat \<Rightarrow> 'd frame \<Rightarrow> 'd frame" where
  "head_df n df = take n df"

definition tail_df :: "nat \<Rightarrow> 'd frame \<Rightarrow> 'd frame" where
  "tail_df n df = drop (length df - n) df"

definition slice_df :: "nat \<Rightarrow> nat \<Rightarrow> 'd frame \<Rightarrow> 'd frame" where
  "slice_df offset len df = take len (drop offset df)"

text \<open>The exceptions that the modelled code can raise and does not catch.\<close>

datatype error =
    ConcatEmptyList            \<comment> \<open>\<^verbatim>\<open>pl.concat([])\<close>: ValueError, cannot concat empty list\<close>
  | FileNotFoundError nat      \<comment> \<open>\<^verbatim>\<open>pl.read_parquet\<close> of a shard file that does not exist\<close>
  | ZeroDivisionError
  | KeyError string

text \<open>A run of a script either completes or is aborted by an exception; in both cases
  the state reached (the files written so far) is kept.\<close>

datatype 's run = Completed 's | Aborted error 's

text \<open>\<^verbatim>\<open>pl.concat(frames)\<close> stacks the frames vertically and raises on an empty list.\<close>

definition concat_df :: "'d frame list \<Rightarrow> error + 'd frame" where
  "concat_df dfs = (if dfs = [] then Inl ConcatEmptyList else Inr (concat dfs))"

text \<open>A directory of numbered shard files is a map from the index to the frame the file
  holds; an index without a file maps to \<open>None\<close>.\<close>

type_synonym 'd shard_dir = "nat \<rightharpoonup> 'd frame"

text \<open>The rows of the shards with the given indices, in index order (a shard without a
  file contributes none).\<close>

definition rows_of :: "'d shard_dir \<Rightarrow> nat list \<Rightarrow> 'd list" where
  "rows_of dir idxs = concat (map (\<lambda>i. case dir i of None \<Rightarrow> [] | Some df \<Rightarrow> df) idxs)"

text \<open>The state a run ended in, completed or not.\<close>

definition output_of :: "'s run \<Rightarrow> 's" where
  "output_of r = (case r of Completed s \<Rightarrow> s | Aborted e s \<Rightarrow> s)"

text \<open>\<^verbatim>\<open>NUM_PARTITIONS\<close>, set to 10 in \<^verbatim>\<open>merge_partitions.py\<close> and in
  \<^verbatim>\<open>balance_partitions.py\<close>.\<close>

definition NUM_PARTITIONS :: nat where
  "NUM_PARTITIONS = 10"

text \<open>
  Where polars does not fix the order of the rows it returns (the permutation of
  \<^verbatim>\<open>sample\<close>, the rows left by \<^verbatim>\<open>unique\<close> without \<^verbatim>\<open>maintain_order\<close>), the order is
  driven by a generator, a parameter: \<open>gen k\<close> is its \<open>k\<close>-th output, and the \<open>k\<close>-th draw
  takes the row at position \<open>gen k mod m\<close> among the \<open>m\<close> rows not drawn yet.  Drawing
  without replacement reaches every order; the generator that is constantly 0 keeps the
  rows as they are.
\<close>

fun draw_rows :: "(nat \<Rightarrow> nat) \<Rightarrow> nat \<Rightarrow> nat \<Rightarrow> 'd list \<Rightarrow> 'd list" where
  "draw_rows gen k 0 rows = []"
| "draw_rows gen k (Suc n) rows =
     (if rows = [] then []
      else (let i = gen k mod length rows
            in rows ! i # draw_rows gen (Suc k) n (take i rows @ drop (Suc i) rows)))"

section \<open>The Interleaver: \<^verbatim>\<open>process_data.py\<close>\<close>

text \<open>
  \<^verbatim>\<open>process_data\<close> walks the input directory, derives an account id from the path of
  every file it finds, and groups the files by account.  Its input here is
  \<^item> \<open>all_files\<close>: for every file found, in the order of the walk, the account id
    derived from its path and the frame that reading the file returns, \<open>None\<close> when the
    read raises (the error is printed and the file is skipped);
  \<^item> \<open>id_col\<close>: the column \<^verbatim>\<open>id\<close> of the frames or, when they have none, the column
    \<^verbatim>\<open>ticket_id\<close>, as the function from a row to its value in that column; \<open>None\<close> when
    the frames have neither column (the files of a run have the same columns);
  \<^item> \<open>row_order\<close>: for every account, the generator of the order in which
    \<^verbatim>\<open>unique\<close> returns the rows it keeps;
  \<^item> \<open>out0\<close>: the files \<^verbatim>\<open>train_part_<i>.parquet\<close> already in the output directory.

  \<^verbatim>\<open>num_shards\<close> and \<^verbatim>\<open>rounds_per_shard\<close> are counts and modelled as natural
  numbers.
\<close>

text \<open>\<^verbatim>\<open>files_by_account[acc_id]\<close>: the files of an account, in the order of the walk.\<close>

definition files_by_account :: "(string \<times> 'f) list \<Rightarrow> string \<Rightarrow> 'f list" where
  "files_by_account all_files acc_id = map snd (filter (\<lambda>(a, f). a = acc_id) all_files)"

text \<open>The loop over the files of one account that fills \<^verbatim>\<open>dfs\<close>: a file whose read
  raises is skipped.\<close>

fun read_files :: "'d frame option list \<Rightarrow> 'd frame list" where
  "read_files [] = []"
| "read_files (None # rest) = read_files rest"
| "read_files (Some df # rest) = df # read_files rest"

text \<open>\<^verbatim>\<open>full_df.unique(subset=[id_col], keep="first")\<close> keeps, of the rows with one id,
  the first.  \<open>unique_first\<close> are the rows kept, in the order of the frame (\<open>seen\<close> are the
  ids met so far).  The call does not set \<^verbatim>\<open>maintain_order\<close>, so polars returns the
  rows kept in an order of its own: they are drawn with \<open>draw_rows\<close>.\<close>

fun unique_first :: "('d \<Rightarrow> 'k) \<Rightarrow> 'k list \<Rightarrow> 'd frame \<Rightarrow> 'd frame" where
  "unique_first key seen [] = []"
| "unique_first key seen (row # rest) =
     (if key row \<in> set seen then unique_first key seen rest
      else row # unique_first key (key row # seen) rest)"

definition unique_df :: "(nat \<Rightarrow> nat) \<Rightarrow> ('d \<Rightarrow> 'k) \<Rightarrow> 'd frame \<Rightarrow> 'd frame" where
  "unique_df gen key df =
     (let kept = unique_first key [] df in draw_rows gen 0 (length kept) kept)"

text \<open>The body of the loop that fills \<^verbatim>\<open>data_map\<close>, for one account: the frame stored
  for it, or \<open>None\<close> when none of its files could be read (the test \<^verbatim>\<open>if dfs:\<close> fails
  and the account gets no entry).  Renaming the columns \<^verbatim>\<open>ticket_id\<close> and
  \<^verbatim>\<open>embedding\<close> changes no row.\<close>

definition load_account ::
  "(string \<times> 'd frame option) list \<Rightarrow> ('d \<Rightarrow> 'k) option \<Rightarrow> (string \<Rightarrow> nat \<Rightarrow> nat) \<Rightarrow> string
     \<Rightarrow> 'd frame option" where
  "load_account all_files id_col row_order acc_id =
     (let dfs = read_files (files_by_account all_files acc_id) in
      if dfs = [] then None
      else
        (let full_df = concat dfs in
         case id_col of
           None \<Rightarrow> Some full_df
         | Some key \<Rightarrow> Some (unique_df (row_order acc_id) key full_df)))"

text \<open>\<^verbatim>\<open>math.ceil(total_rows / total_micro_chunks)\<close>.  The quotient is a Python float;
  for frames of fewer than \<open>2^53\<close> rows its ceiling is the ceiling of the exact quotient,
  which is what is modelled.  Division by zero raises.\<close>

definition chunk_size :: "nat \<Rightarrow> nat \<Rightarrow> error + nat" where
  "chunk_size total_rows total_micro_chunks =
     (if total_micro_chunks = 0 then Inl ZeroDivisionError
      else Inr (nat \<lceil>real total_rows / real total_micro_chunks\<rceil>))"

text \<open>The loop that fills \<^verbatim>\<open>data_map\<close>, over the sorted account ids, with \<open>load\<close> for
  its body.  A dict keeps insertion order, so it is an association list.\<close>

fun load_accounts :: "(string \<Rightarrow> 'd frame option) \<Rightarrow> string list \<Rightarrow> (string \<times> 'd frame) list" where
  "load_accounts load [] = []"
| "load_accounts load (acc_id # rest) =
     (case load acc_id of
        None \<Rightarrow> load_accounts load rest
      | Some full_df \<Rightarrow> (acc_id, full_df) # load_accounts load rest)"

text \<open>The loop over \<^verbatim>\<open>data_map.items()\<close> that fills \<^verbatim>\<open>chunk_sizes\<close>.\<close>

fun chunk_sizes_of :: "nat \<Rightarrow> (string \<times> 'd frame) list \<Rightarrow> error + (string \<times> nat) list" where
  "chunk_sizes_of total_micro_chunks [] = Inr []"
| "chunk_sizes_of total_micro_chunks ((acc_id, df) # rest) =
     (case chunk_size (length df) total_micro_chunks of
        Inl e \<Rightarrow> Inl e
      | Inr c_size \<Rightarrow>
          (case chunk_sizes_of total_micro_chunks rest of
             Inl e \<Rightarrow> Inl e
           | Inr sizes \<Rightarrow> Inr ((acc_id, c_size) # sizes)))"

text \<open>The innermost loop, over \<^verbatim>\<open>sorted_account_ids\<close>, for one global chunk index.
  \<^verbatim>\<open>data_map[acc_id]\<close> raises for an account without an entry.\<close>

fun account_loop ::
  "(string \<times> 'd frame) list \<Rightarrow> (string \<times> nat) list \<Rightarrow> nat \<Rightarrow> string list
     \<Rightarrow> 'd frame list \<Rightarrow> error + 'd frame list" where
  "account_loop data_map chunk_sizes global_chunk_idx [] file_buffer = Inr file_buffer"
| "account_loop data_map chunk_sizes global_chunk_idx (acc_id # rest) file_buffer =
     (case map_of data_map acc_id of
        None \<Rightarrow> Inl (KeyError acc_id)
      | Some df \<Rightarrow>
          (case map_of chunk_sizes acc_id of
             None \<Rightarrow> Inl (KeyError acc_id)
           | Some c_size \<Rightarrow>
               (let start = global_chunk_idx * c_size;
                    chunk = slice_df start c_size df
                in account_loop data_map chunk_sizes global_chunk_idx rest
                     (if length chunk > 0 then file_buffer @ [chunk] else file_buffer))))"

text \<open>The loop over \<^verbatim>\<open>range(rounds_per_shard)\<close> for one output file.\<close>

fun round_loop ::
  "(string \<times> 'd frame) list \<Rightarrow> (string \<times> nat) list \<Rightarrow> string list \<Rightarrow> nat \<Rightarrow> nat
     \<Rightarrow> nat list \<Rightarrow> 'd frame list \<Rightarrow> error + 'd frame list" where
  "round_loop data_map chunk_sizes sorted_account_ids file_idx rounds_per_shard [] file_buffer =
     Inr file_buffer"
| "round_loop data_map chunk_sizes sorted_account_ids file_idx rounds_per_shard (round_idx # rest)
     file_buffer =
     (let global_chunk_idx = file_idx * rounds_per_shard + round_idx in
      case account_loop data_map chunk_sizes global_chunk_idx sorted_account_ids file_buffer of
        Inl e \<Rightarrow> Inl e
      | Inr file_buffer' \<Rightarrow>
          round_loop data_map chunk_sizes sorted_account_ids file_idx rounds_per_shard rest
            file_buffer')"

text \<open>The loop over \<^verbatim>\<open>range(num_shards)\<close>.  The state is the output directory and
  \<^verbatim>\<open>created_files\<close>; a file whose buffer stays empty is not written.\<close>

record 'd interleaved =
  files :: "'d shard_dir"
  created_files :: "nat list"

fun file_loop ::
  "(string \<times> 'd frame) list \<Rightarrow> (string \<times> nat) list \<Rightarrow> string list \<Rightarrow> nat
     \<Rightarrow> nat list \<Rightarrow> 'd interleaved \<Rightarrow> 'd interleaved run" where
  "file_loop data_map chunk_sizes sorted_account_ids rounds_per_shard [] st = Completed st"
| "file_loop data_map chunk_sizes sorted_account_ids rounds_per_shard (file_idx # rest) st =
     (case round_loop data_map chunk_sizes sorted_account_ids file_idx rounds_per_shard
             [0..<rounds_per_shard] [] of
        Inl e \<Rightarrow> Aborted e st
      | Inr file_buffer \<Rightarrow>
          if file_buffer = [] then
            file_loop data_map chunk_sizes sorted_account_ids rounds_per_shard rest st
          else
            (case concat_df file_buffer of
               Inl e \<Rightarrow> Aborted e st
             | Inr final_df \<Rightarrow>
                 file_loop data_map chunk_sizes sorted_account_ids rounds_per_shard rest
                   (st\<lparr>files := (files st)(file_idx \<mapsto> final_df),
                       created_files := created_files st @ [file_idx]\<rparr>)))"

definition process_data ::
  "(string \<times> 'd frame option) list \<Rightarrow> ('d \<Rightarrow> 'k) option \<Rightarrow> (string \<Rightarrow> nat \<Rightarrow> nat)
     \<Rightarrow> 'd shard_dir \<Rightarrow> nat \<Rightarrow> nat \<Rightarrow> 'd interleaved run" where
  "process_data all_files id_col row_order out0 num_shards rounds_per_shard =
     (let st0 = \<lparr>files = out0, created_files = []\<rparr> in
      if all_files = [] then Completed st0
      else
        (let sorted_account_ids = sort (remdups (map fst all_files));
             data_map = load_accounts (load_account all_files id_col row_order) sorted_account_ids;
             total_micro_chunks = num_shards * rounds_per_shard
         in case chunk_sizes_of total_micro_chunks data_map of
              Inl e \<Rightarrow> Aborted e st0
            | Inr chunk_sizes \<Rightarrow>
                file_loop data_map chunk_sizes sorted_account_ids rounds_per_shard
                  [0..<num_shards] st0))"


text \<open>What the three nested loops put into output file \<open>f\<close>, given the frame \<open>docs a\<close>
  and the chunk size \<open>c a\<close> of every account: round after round, account after account,
  the slice at \<open>(f * R + r) * c a\<close>.\<close>

definition grid_shard :: "string list \<Rightarrow> (string \<Rightarrow> 'd frame) \<Rightarrow> (string \<Rightarrow> nat) \<Rightarrow> nat \<Rightarrow> nat \<Rightarrow> 'd frame" where
  "grid_shard ids docs c R f =
     concat (map (\<lambda>r. concat (map (\<lambda>a. slice_df ((f * R + r) * c a) (c a) (docs a)) ids)) [0..<R])"

text \<open>The interleaving as the specification words it: every account's chunk size is the
  ceiling of its count over \<open>S * R\<close>; the global chunk indices \<open>0 \<dots> S * R - 1\<close> are taken in
  order, within each the accounts in sorted order, and the slice of the account at
  \<open>g * chunk_size\<close> of length \<open>chunk_size\<close> goes to the shard \<open>g div R\<close>.\<close>

definition spec_chunk_size :: "nat \<Rightarrow> nat \<Rightarrow> nat \<Rightarrow> nat" where
  "spec_chunk_size S R n = nat \<lceil>real n / real (S * R)\<rceil>"

definition spec_shard ::
  "string list \<Rightarrow> (string \<Rightarrow> 'd frame) \<Rightarrow> nat \<Rightarrow> nat \<Rightarrow> nat \<Rightarrow> 'd frame" where
  "spec_shard accounts docs S R shard =
     concat (map (\<lambda>g. concat (map (\<lambda>a. take (spec_chunk_size S R (length (docs a)))
                                          (drop (g * spec_chunk_size S R (length (docs a))) (docs a)))
                                 (sort (remdups accounts))))
                 (filter (\<lambda>g. g div R = shard) [0..<S * R]))"





section \<open>The Streaming Merger and the Shuffler: \<^verbatim>\<open>merge_partitions.py\<close>\<close>

subsection \<open>Files, paths and the log\<close>

text \<open>
  Under \<^verbatim>\<open>INPUT_BASE_DIR\<close> every account has a directory \<^verbatim>\<open>account_<id>_dataset\<close>
  with one Parquet file per partition.  What matters of such a file is how the
  \<^verbatim>\<open>try\<close> block of \<^verbatim>\<open>merge_partition\<close> goes for it:
  \<^item> \<open>Batches bs\<close>: \<^verbatim>\<open>iter_batches\<close> yields the record batches \<open>bs\<close>, each is written, and
    the iteration ends;
  \<^item> \<open>Broken bs\<close>: the batches \<open>bs\<close> are yielded and written, then reading raises (with
    \<open>bs = []\<close>: \<^verbatim>\<open>pq.ParquetFile(part_file)\<close> cannot open the file at all);
  \<^item> \<open>Rejected bs\<close>: the batches \<open>bs\<close> are yielded and written, then one more batch is
    yielded for which \<^verbatim>\<open>pa.Table.from_batches\<close> or \<^verbatim>\<open>writer.write_table\<close> raises; the
    line before has created the writer by then, if there was none.
\<close>

datatype 'd part_file =
  Batches "'d frame list" | Broken "'d frame list" | Rejected "'d frame list"

record 'd account_dir =
  dir_name :: string
  entries :: "string \<rightharpoonup> 'd part_file"

text \<open>A file of the output directory is a readable Parquet file or something that
  \<^verbatim>\<open>pl.read_parquet\<close> rejects; a name without a file is absent.\<close>

datatype 'd out_file = Parquet "'d frame" | Garbage

type_synonym 'd out_dir = "string \<rightharpoonup> 'd out_file"

text \<open>\<^verbatim>\<open>str.split(sep)\<close> for a one-character separator: one part more than there are
  separators, empty parts included.\<close>

fun split_on :: "char \<Rightarrow> string \<Rightarrow> string list" where
  "split_on sep [] = [[]]"
| "split_on sep (c # cs) =
     (if c = sep then [] # split_on sep cs
      else (case split_on sep cs of
              [] \<Rightarrow> [[c]]
            | part # parts \<Rightarrow> (c # part) # parts))"

definition extract_account_id :: "string \<Rightarrow> string" where
  "extract_account_id name =
     (let parts = split_on CHR ''_'' name in
      if length parts \<ge> 2 then parts ! 1 else name)"

text \<open>The format \<^verbatim>\<open>{partition_idx:02d}\<close> of a non-negative index: its decimal digits,
  padded with zeros to two places.\<close>

definition digit_char :: "nat \<Rightarrow> char" where
  "digit_char d = ''0123456789'' ! d"

fun decimal :: "nat \<Rightarrow> string" where
  "decimal n = (if n < 10 then [digit_char n] else decimal (n div 10) @ [digit_char (n mod 10)])"

definition fmt_02d :: "nat \<Rightarrow> string" where
  "fmt_02d n = replicate (2 - length (decimal n)) CHR ''0'' @ decimal n"

text \<open>The part file of an account directory for a partition:
  \<^verbatim>\<open>account_dir / f"{account_id}_part_{partition_idx:02d}.parquet"\<close>, its path as it is
  logged, and the file there, if it exists.\<close>

definition part_name :: "'d account_dir \<Rightarrow> nat \<Rightarrow> string" where
  "part_name account_dir partition_idx =
     extract_account_id (dir_name account_dir) @ ''_part_'' @ fmt_02d partition_idx @ ''.parquet''"

definition part_path :: "'d account_dir \<Rightarrow> nat \<Rightarrow> string" where
  "part_path account_dir partition_idx = dir_name account_dir @ ''/'' @ part_name account_dir partition_idx"

definition part_of :: "'d account_dir \<Rightarrow> nat \<Rightarrow> 'd part_file option" where
  "part_of account_dir partition_idx = entries account_dir (part_name account_dir partition_idx)"

definition shard_name :: "nat \<Rightarrow> string" where
  "shard_name partition_idx = ''shuffle_train_'' @ fmt_02d partition_idx @ ''.parquet''"

text \<open>The lines that \<^verbatim>\<open>log\<close> prints for the partitions and in the summary, with
  the values they interpolate.  The timestamps, the rulers of \<open>=\<close>, the opening banner
  and the \<^verbatim>\<open>Min\<close>/\<^verbatim>\<open>Max\<close> lines of the summary are left out.\<close>

datatype log_line =
    PartitionHeader nat         \<comment> \<open>\<^verbatim>\<open>PARTITION NN\<close>\<close>
  | MergeStart nat              \<comment> \<open>\<^verbatim>\<open>Starting merge for partition NN...\<close>\<close>
  | MissingWarning string       \<comment> \<open>\<^verbatim>\<open>WARNING: Missing <part_file>\<close>\<close>
  | MergeProgress nat nat       \<comment> \<open>\<^verbatim>\<open>Processed <n> accounts, <docs> docs so far...\<close>\<close>
  | ReadError string            \<comment> \<open>\<^verbatim>\<open>ERROR reading <part_file>: <e>\<close>\<close>
  | MergeComplete nat nat       \<comment> \<open>\<^verbatim>\<open>Merge complete: <docs> docs from <n> accounts\<close>\<close>
  | SleepAfterMerge
  | ShuffleStart string         \<comment> \<open>\<^verbatim>\<open>Starting shuffle for <name>...\<close>\<close>
  | ShuffleLoaded nat           \<comment> \<open>\<^verbatim>\<open>Loaded <n> rows into memory\<close>\<close>
  | ShuffledRows
  | WrittenBack string
  | ShuffleError                \<comment> \<open>\<^verbatim>\<open>ERROR during shuffle: <e>\<close>\<close>
  | SleepBeforeNext
  | NoAccountDirs               \<comment> \<open>\<^verbatim>\<open>ERROR: No account directories found!\<close>\<close>
  | SummaryCount string nat     \<comment> \<open>\<^verbatim>\<open>shuffle_train_NN.parquet: <n> docs\<close>\<close>
  | SummaryTotal nat            \<comment> \<open>\<^verbatim>\<open>Total: <n> docs\<close>\<close>

record 'd world =
  out_files :: "'d out_dir"
  log_lines :: "log_line list"

subsection \<open>\<^verbatim>\<open>merge_partition\<close>\<close>

text \<open>The writer is \<open>None\<close> until \<^verbatim>\<open>pq.ParquetWriter(output_path, train_schema)\<close> creates
  it, which creates or truncates the output file; from then on it holds the tables
  written, none at first.  \<open>open_writer\<close> is the line
  \<^verbatim>\<open>if writer is None: writer = pq.ParquetWriter(...)\<close>: the tables of the writer once it
  exists.\<close>

definition open_writer :: "'d frame list option \<Rightarrow> 'd frame list" where
  "open_writer writer = (case writer of None \<Rightarrow> [] | Some tables \<Rightarrow> tables)"

text \<open>The loop over the batches of one part file that are read and written without an
  exception: for each the writer is created if there is none, then the batch is written
  and counted.\<close>

fun write_batches :: "'d frame list \<Rightarrow> 'd frame list option \<Rightarrow> nat \<Rightarrow> 'd frame list option \<times> nat" where
  "write_batches [] writer file_docs = (writer, file_docs)"
| "write_batches (batch # rest) writer file_docs =
     (let tables = open_writer writer
      in write_batches rest (Some (tables @ [batch])) (file_docs + length batch))"

record 'd merger =
  writer :: "'d frame list option"
  total_docs :: nat
  accounts_processed :: nat
  merge_log :: "log_line list"

text \<open>The loop over \<^verbatim>\<open>account_dirs\<close>.  A missing part file is logged and skipped.  When
  reading or writing raises, the \<^verbatim>\<open>except\<close> block logs and goes on: the batches
  written so far stay written, a writer created for the failing batch stays created, and
  neither \<^verbatim>\<open>total_docs\<close> nor \<^verbatim>\<open>accounts_processed\<close> is updated.\<close>

fun merge_loop :: "nat \<Rightarrow> 'd account_dir list \<Rightarrow> 'd merger \<Rightarrow> 'd merger" where
  "merge_loop partition_idx [] st = st"
| "merge_loop partition_idx (account_dir # rest) st =
     (let part_file = part_path account_dir partition_idx
      in case part_of account_dir partition_idx of
           None \<Rightarrow>
             merge_loop partition_idx rest
               (st\<lparr>merge_log := merge_log st @ [MissingWarning part_file]\<rparr>)
         | Some (Batches bs) \<Rightarrow>
             (let (w, file_docs) = write_batches bs (writer st) 0;
                  total = total_docs st + file_docs;
                  processed = accounts_processed st + 1
              in merge_loop partition_idx rest
                   (st\<lparr>writer := w, total_docs := total, accounts_processed := processed,
                       merge_log := merge_log st @
                         (if processed mod 10 = 0 then [MergeProgress processed total] else [])\<rparr>))
         | Some (Broken bs) \<Rightarrow>
             (let (w, file_docs) = write_batches bs (writer st) 0
              in merge_loop partition_idx rest
                   (st\<lparr>writer := w, merge_log := merge_log st @ [ReadError part_file]\<rparr>))
         | Some (Rejected bs) \<Rightarrow>
             (let (w, file_docs) = write_batches bs (writer st) 0
              in merge_loop partition_idx rest
                   (st\<lparr>writer := Some (open_writer w),
                       merge_log := merge_log st @ [ReadError part_file]\<rparr>)))"

text \<open>\<^verbatim>\<open>merge_partition\<close> returns \<^verbatim>\<open>total_docs\<close>.  When the writer has been created,
  closing it leaves the tables written (possibly none, a file of no rows) in the output
  file; when it never was, the output file is not touched.\<close>

definition merge_partition :: "nat \<Rightarrow> 'd account_dir list \<Rightarrow> string \<Rightarrow> 'd world \<Rightarrow> 'd world \<times> nat" where
  "merge_partition partition_idx account_dirs output_name w =
     (let st = merge_loop partition_idx account_dirs
                 \<lparr>writer = None, total_docs = 0, accounts_processed = 0,
                  merge_log = log_lines w @ [MergeStart partition_idx]\<rparr>;
          out = (case writer st of
                   None \<Rightarrow> out_files w
                 | Some tables \<Rightarrow> (out_files w)(output_name \<mapsto> Parquet (concat tables)))
      in (\<lparr>out_files = out,
           log_lines = merge_log st @ [MergeComplete (total_docs st) (accounts_processed st)]\<rparr>,
          total_docs st))"

subsection \<open>\<^verbatim>\<open>shuffle_file\<close>\<close>

text \<open>
  \<^verbatim>\<open>df.sample(fraction=1.0, shuffle=True, seed=42)\<close> draws \<open>\<lfloor>1.0 * len\<rfloor> = len\<close> rows
  without replacement, in a random order fixed by the seed.  The generator is a
  parameter: the rows are drawn with \<open>draw_rows\<close>.
\<close>

definition sample_all :: "(nat \<Rightarrow> nat) \<Rightarrow> 'd frame \<Rightarrow> 'd frame" where
  "sample_all gen df = draw_rows gen 0 (length df) df"

text \<open>How \<^verbatim>\<open>df.write_parquet(file_path)\<close> goes for a given file: it succeeds, it
  raises before the file is touched, or it raises after the old contents are gone.\<close>

datatype write_fault = NoFault | FailBeforeWrite | FailDuringWrite

text \<open>\<^verbatim>\<open>shuffle_file\<close> returns the row count, or 0 from the \<^verbatim>\<open>except\<close> block.  \<open>rng\<close> maps
  a seed to its generator.\<close>

definition shuffle_file ::
  "(nat \<Rightarrow> nat \<Rightarrow> nat) \<Rightarrow> (string \<Rightarrow> write_fault) \<Rightarrow> string \<Rightarrow> 'd world \<Rightarrow> 'd world \<times> nat" where
  "shuffle_file rng fault file_name w =
     (let started = log_lines w @ [ShuffleStart file_name] in
      case out_files w file_name of
        None \<Rightarrow> (w\<lparr>log_lines := started @ [ShuffleError]\<rparr>, 0)
      | Some Garbage \<Rightarrow> (w\<lparr>log_lines := started @ [ShuffleError]\<rparr>, 0)
      | Some (Parquet df) \<Rightarrow>
          (let original_count = length df;
               shuffled = sample_all (rng 42) df;
               loaded = started @ [ShuffleLoaded original_count, ShuffledRows]
           in case fault file_name of
                NoFault \<Rightarrow>
                  (\<lparr>out_files = (out_files w)(file_name \<mapsto> Parquet shuffled),
                    log_lines = loaded @ [WrittenBack file_name]\<rparr>, original_count)
              | FailBeforeWrite \<Rightarrow> (w\<lparr>log_lines := loaded @ [ShuffleError]\<rparr>, 0)
              | FailDuringWrite \<Rightarrow>
                  (\<lparr>out_files = (out_files w)(file_name \<mapsto> Garbage),
                    log_lines = loaded @ [ShuffleError]\<rparr>, 0)))"

subsection \<open>\<^verbatim>\<open>main\<close>\<close>

text \<open>\<^verbatim>\<open>get_account_dirs\<close>: the directories under the base directory whose name starts
  with \<^verbatim>\<open>account_\<close>, sorted.\<close>

definition startswith :: "string \<Rightarrow> string \<Rightarrow> bool" where
  "startswith s p = (take (length p) s = p)"

definition get_account_dirs :: "'d account_dir list \<Rightarrow> 'd account_dir list" where
  "get_account_dirs base = sort_key dir_name (filter (\<lambda>d. startswith (dir_name d) ''account_'') base)"

text \<open>The body of the loop over \<^verbatim>\<open>partitions_to_process\<close>: merge, pause, shuffle, pause.
  The state is the world and the dict \<^verbatim>\<open>partition_counts\<close>.\<close>

definition process_partition ::
  "(nat \<Rightarrow> nat \<Rightarrow> nat) \<Rightarrow> (string \<Rightarrow> write_fault) \<Rightarrow> 'd account_dir list \<Rightarrow> nat
     \<Rightarrow> 'd world \<times> (nat \<rightharpoonup> nat) \<Rightarrow> 'd world \<times> (nat \<rightharpoonup> nat)" where
  "process_partition rng fault account_dirs partition_idx st =
     (let (w, partition_counts) = st;
          w1 = w\<lparr>log_lines := log_lines w @ [PartitionHeader partition_idx]\<rparr>;
          output_name = shard_name partition_idx;
          (w2, doc_count) = merge_partition partition_idx account_dirs output_name w1;
          w3 = w2\<lparr>log_lines := log_lines w2 @ [SleepAfterMerge]\<rparr>;
          (w4, shuffled_count) = shuffle_file rng fault output_name w3;
          w5 = (if partition_idx < NUM_PARTITIONS - 1
                then w4\<lparr>log_lines := log_lines w4 @ [SleepBeforeNext]\<rparr> else w4)
      in (w5, partition_counts(partition_idx \<mapsto> doc_count)))"

fun partition_loop ::
  "(nat \<Rightarrow> nat \<Rightarrow> nat) \<Rightarrow> (string \<Rightarrow> write_fault) \<Rightarrow> 'd account_dir list \<Rightarrow> nat list
     \<Rightarrow> 'd world \<times> (nat \<rightharpoonup> nat) \<Rightarrow> 'd world \<times> (nat \<rightharpoonup> nat)" where
  "partition_loop rng fault account_dirs [] st = st"
| "partition_loop rng fault account_dirs (partition_idx # rest) st =
     partition_loop rng fault account_dirs rest
       (process_partition rng fault account_dirs partition_idx st)"

text \<open>The final summary: one line per partition of this run and the total.\<close>

definition summary :: "nat list \<Rightarrow> (nat \<rightharpoonup> nat) \<Rightarrow> log_line list" where
  "summary partitions_to_process partition_counts =
     (let count = (\<lambda>idx. case partition_counts idx of None \<Rightarrow> 0 | Some n \<Rightarrow> n)
      in map (\<lambda>idx. SummaryCount (shard_name idx) (count idx)) partitions_to_process
         @ [SummaryTotal (sum_list (map count partitions_to_process))])"

text \<open>\<^verbatim>\<open>main\<close>: \<open>arg\<close> is the partition index given on the command line, if any; \<open>base\<close>
  the directories under \<^verbatim>\<open>INPUT_BASE_DIR\<close>.  The result is the world reached and the
  exit status.\<close>

definition merge_main ::
  "(nat \<Rightarrow> nat \<Rightarrow> nat) \<Rightarrow> (string \<Rightarrow> write_fault) \<Rightarrow> nat option \<Rightarrow> 'd account_dir list
     \<Rightarrow> 'd world \<Rightarrow> 'd world \<times> nat" where
  "merge_main rng fault arg base w =
     (let partitions_to_process = (case arg of Some partition_idx \<Rightarrow> [partition_idx]
                                   | None \<Rightarrow> [0..<NUM_PARTITIONS]);
          account_dirs = get_account_dirs base
      in if length account_dirs = 0 then (w\<lparr>log_lines := log_lines w @ [NoAccountDirs]\<rparr>, 1)
         else (let (w', partition_counts) =
                      partition_loop rng fault account_dirs partitions_to_process (w, Map.empty)
               in (w'\<lparr>log_lines := log_lines w' @ summary partitions_to_process partition_counts\<rparr>, 0)))"

subsection \<open>Reading the merger's inputs and the log\<close>

text \<open>The rows of a part file that was found and read to its end (a file that is missing
  or raises while it is read or written counts for nothing), the batches of a part file
  that reach the output (those written before an exception included), and whether the
  part file makes the loop create the writer if there is none.\<close>

definition rows_read :: "nat \<Rightarrow> 'd account_dir \<Rightarrow> nat" where
  "rows_read partition_idx account_dir =
     (case part_of account_dir partition_idx of
        Some (Batches bs) \<Rightarrow> length (concat bs)
      | Some (Broken bs) \<Rightarrow> 0
      | Some (Rejected bs) \<Rightarrow> 0
      | None \<Rightarrow> 0)"

definition batches_written :: "nat \<Rightarrow> 'd account_dir \<Rightarrow> 'd frame list" where
  "batches_written partition_idx account_dir =
     (case part_of account_dir partition_idx of
        Some (Batches bs) \<Rightarrow> bs
      | Some (Broken bs) \<Rightarrow> bs
      | Some (Rejected bs) \<Rightarrow> bs
      | None \<Rightarrow> [])"

definition opens_writer :: "nat \<Rightarrow> 'd account_dir \<Rightarrow> bool" where
  "opens_writer partition_idx account_dir =
     (case part_of account_dir partition_idx of
        Some (Batches bs) \<Rightarrow> bs \<noteq> []
      | Some (Broken bs) \<Rightarrow> bs \<noteq> []
      | Some (Rejected bs) \<Rightarrow> True
      | None \<Rightarrow> False)"

fun is_missing_warning :: "log_line \<Rightarrow> bool" where
  "is_missing_warning (MissingWarning path) = True"
| "is_missing_warning line = False"

text \<open>The stages as the log shows them: a merge begins, a merge has ended (the writer is
  closed before that line is printed), a shuffle begins (the line is printed before the
  file is read).\<close>

datatype stage_event = MergeBegins nat | MergeEnded | ShuffleBegins string

fun stage_of :: "log_line \<Rightarrow> stage_event option" where
  "stage_of (MergeStart partition_idx) = Some (MergeBegins partition_idx)"
| "stage_of (MergeComplete docs accounts) = Some MergeEnded"
| "stage_of (ShuffleStart name) = Some (ShuffleBegins name)"
| "stage_of line = None"

definition stage_trace :: "log_line list \<Rightarrow> stage_event list" where
  "stage_trace lines = List.map_filter stage_of lines"

text \<open>Whole-stage ordering of a trace: no merge after the first shuffle has begun.\<close>

fun is_shuffle_event :: "stage_event \<Rightarrow> bool" where
  "is_shuffle_event (ShuffleBegins name) = True"
| "is_shuffle_event event = False"

definition merge_all_before_shuffle :: "stage_event list \<Rightarrow> bool" where
  "merge_all_before_shuffle trace =
     list_all is_shuffle_event (dropWhile (\<lambda>event. \<not> is_shuffle_event event) trace)"

text \<open>An example: two account directories and a directory that is not one.  Account 1
  has part files for the partitions 0 and 1, account 2 for partition 0 only.\<close>

definition example_base :: "(string \<times> nat) account_dir list" where
  "example_base =
     [\<lparr>dir_name = ''account_2_dataset'',
       entries = [''2_part_00.parquet'' \<mapsto> Batches [[(''2'', 0)]]]\<rparr>,
      \<lparr>dir_name = ''account_1_dataset'',
       entries = [''1_part_00.parquet'' \<mapsto> Batches [[(''1'', 0), (''1'', 1)], [(''1'', 2)]],
                  ''1_part_01.parquet'' \<mapsto> Batches [[(''1'', 3)]]]\<rparr>,
      \<lparr>dir_name = ''notes'', entries = Map.empty\<rparr>]"

definition example_rng :: "nat \<Rightarrow> nat \<Rightarrow> nat" where
  "example_rng seed k = seed + k"

definition empty_world :: "'d world" where
  "empty_world = \<lparr>out_files = Map.empty, log_lines = []\<rparr>"

text \<open>A second example: one account directory whose part file for partition 0 yields a
  batch that the writer rejects, and an output directory that still holds a shard 00 from
  an earlier run.\<close>

definition example_rejecting :: "(string \<times> nat) account_dir list" where
  "example_rejecting =
     [\<lparr>dir_name = ''account_7_dataset'', entries = [''7_part_00.parquet'' \<mapsto> Rejected []]\<rparr>]"

definition stale_world :: "(string \<times> nat) world" where
  "stale_world =
     \<lparr>out_files = [''shuffle_train_00.parquet'' \<mapsto> Parquet [(''0'', 9)]], log_lines = []\<rparr>"

section \<open>The Balancer: \<^verbatim>\<open>balance_partitions.py\<close>\<close>

text \<open>
  The input and output directories hold the shard files \<^verbatim>\<open>shuffle_train_NN.parquet\<close>,
  indexed by the partition index \<open>NN\<close>.  \<^verbatim>\<open>TARGET_DOCS_PER_FILE\<close> is the
  parameter \<open>T\<close> throughout.
\<close>

text \<open>Phase 1, the loop over \<^verbatim>\<open>range(5)\<close>.  The state is the output directory
  and the list \<^verbatim>\<open>excess_dfs\<close>.\<close>

fun collect ::
  "nat \<Rightarrow> 'd shard_dir \<Rightarrow> nat list \<Rightarrow> 'd shard_dir \<times> 'd frame list
     \<Rightarrow> ('d shard_dir \<times> 'd frame list) run" where
  "collect T inp [] st = Completed st"
| "collect T inp (partition_idx # rest) (out, excess_dfs) =
     (case inp partition_idx of
        None \<Rightarrow> Aborted (FileNotFoundError partition_idx) (out, excess_dfs)
      | Some df \<Rightarrow>
          (let total_docs = length df in
           if total_docs > T then
             (let keep_df = head_df T df;
                  excess_df = tail_df (total_docs - T) df
              in collect T inp rest (out(partition_idx \<mapsto> keep_df), excess_dfs @ [excess_df]))
           else collect T inp rest (out(partition_idx \<mapsto> df), excess_dfs)))"

text \<open>Phase 2, the loop over \<^verbatim>\<open>range(5, NUM_PARTITIONS)\<close>.  The state is the output
  directory and the cursor \<^verbatim>\<open>excess_offset\<close>.  \<^verbatim>\<open>docs_needed\<close> is a Python
  integer and can be negative, so it is an \<open>int\<close> here and the test \<open>docs_needed > 0\<close>
  is the source's.\<close>

definition docs_needed :: "nat \<Rightarrow> nat \<Rightarrow> nat \<Rightarrow> nat \<Rightarrow> nat \<Rightarrow> int" where
  "docs_needed T partition_idx current_docs total_excess excess_offset =
     (if partition_idx < 9 then int T - int current_docs
      else int total_excess - int excess_offset)"

fun distribute ::
  "nat \<Rightarrow> 'd shard_dir \<Rightarrow> 'd frame \<Rightarrow> nat list \<Rightarrow> 'd shard_dir \<times> nat
     \<Rightarrow> ('d shard_dir \<times> nat) run" where
  "distribute T inp excess_combined [] st = Completed st"
| "distribute T inp excess_combined (partition_idx # rest) (out, excess_offset) =
     (case inp partition_idx of
        None \<Rightarrow> Aborted (FileNotFoundError partition_idx) (out, excess_offset)
      | Some df \<Rightarrow>
          (let current_docs = length df;
               total_excess = length excess_combined;
               needed = docs_needed T partition_idx current_docs total_excess excess_offset
           in
           if needed > 0 \<and> excess_offset < total_excess then
             (let docs_to_add = slice_df excess_offset (nat needed) excess_combined;
                  combined_df = df @ docs_to_add
              in distribute T inp excess_combined rest
                   (out(partition_idx \<mapsto> combined_df), excess_offset + length docs_to_add))
           else distribute T inp excess_combined rest (out(partition_idx \<mapsto> df), excess_offset)))"

text \<open>\<^verbatim>\<open>main()\<close> up to the final verification: Phase 1, the concatenation of the
  excess, Phase 2.  \<open>out0\<close> is what the output directory holds before the run
  (\<^verbatim>\<open>os.makedirs(OUTPUT_DIR, exist_ok=True)\<close> keeps an existing directory).\<close>

definition balance :: "nat \<Rightarrow> 'd shard_dir \<Rightarrow> 'd shard_dir \<Rightarrow> 'd shard_dir run" where
  "balance T inp out0 =
     (case collect T inp [0..<5] (out0, []) of
        Aborted e (out, excess_dfs) \<Rightarrow> Aborted e out
      | Completed (out, excess_dfs) \<Rightarrow>
          (case concat_df excess_dfs of
             Inl e \<Rightarrow> Aborted e out
           | Inr excess_combined \<Rightarrow>
               (case distribute T inp excess_combined [5..<NUM_PARTITIONS] (out, 0) of
                  Aborted e (out', excess_offset) \<Rightarrow> Aborted e out'
                | Completed (out', excess_offset) \<Rightarrow> Completed out')))"

text \<open>The final verification re-reads the ten output files and adds up their row
  counts; a missing file raises.\<close>

fun count_rows :: "'d shard_dir \<Rightarrow> nat list \<Rightarrow> error + nat list" where
  "count_rows out [] = Inr []"
| "count_rows out (partition_idx # rest) =
     (case out partition_idx of
        None \<Rightarrow> Inl (FileNotFoundError partition_idx)
      | Some df \<Rightarrow>
          (case count_rows out rest of
             Inl e \<Rightarrow> Inl e
           | Inr counts \<Rightarrow> Inr (length df # counts)))"

definition final_total :: "'d shard_dir \<Rightarrow> error + nat" where
  "final_total out =
     (case count_rows out [0..<NUM_PARTITIONS] of
        Inl e \<Rightarrow> Inl e
      | Inr counts \<Rightarrow> Inr (sum_list counts))"

text \<open>The row counts of the listed shards after a completed run (nothing is reported
  for an aborted one).\<close>

definition final_counts :: "'d shard_dir run \<Rightarrow> nat list \<Rightarrow> nat option list" where
  "final_counts r idxs =
     (case r of
        Completed out \<Rightarrow> map (\<lambda>i. map_option length (out i)) idxs
      | Aborted e out \<Rightarrow> [])"

text \<open>Example inputs: shard \<open>i\<close> holds the rows \<open>(i, 0), (i, 1), \<dots>\<close>; the five source
  shards have \<open>a\<close> rows each and the five sink shards \<open>b\<close> rows each.\<close>

definition shard_rows :: "nat \<Rightarrow> nat \<Rightarrow> (nat \<times> nat) frame" where
  "shard_rows partition_idx n = map (Pair partition_idx) [0..<n]"

definition two_level_dir :: "nat \<Rightarrow> nat \<Rightarrow> (nat \<times> nat) shard_dir" where
  "two_level_dir a b =
     (\<lambda>i. if i < 5 then Some (shard_rows i a)
          else if i < 10 then Some (shard_rows i b) else None)"



section \<open>The filtering path: \<^verbatim>\<open>filter_incomplete_queries.py\<close>\<close>

text \<open>
  \<^verbatim>\<open>main\<close> reads a queries table with the columns \<^verbatim>\<open>id\<close> and \<^verbatim>\<open>query\<close> and a
  neighbors table with the columns \<^verbatim>\<open>id\<close> and \<^verbatim>\<open>neighbors\<close> (a list, or null), row
  by row.  A path without a file is \<open>None\<close>.  The query type \<open>'q\<close> is left open;
  \<^verbatim>\<open>extract_account_id(query)\<close> catches every exception and always returns a string,
  so it is the parameter \<open>account_of\<close>.
\<close>

record ('q, 'n) filter_args =
  queries_file :: "(int \<times> 'q) list option"
  neighbors_file :: "(int \<times> 'n list option) list option"
  min_neighbors :: int

text \<open>What \<^verbatim>\<open>main\<close> prints, with the values interpolated (rulers and blank lines left
  out).\<close>

datatype print_line =
    QueriesNotFound             \<comment> \<open>\<^verbatim>\<open>Error: Queries file not found\<close>\<close>
  | NeighborsNotFound           \<comment> \<open>\<^verbatim>\<open>Error: Neighbors file not found\<close>\<close>
  | Banner int                  \<comment> \<open>\<^verbatim>\<open>FILTER INCOMPLETE QUERIES\<close>, the paths, \<^verbatim>\<open>Min neighbors: <k>\<close>\<close>
  | ReadingInputs
  | RowCounts nat nat           \<comment> \<open>\<^verbatim>\<open>Queries: <n> rows\<close>, \<^verbatim>\<open>Neighbors: <m> rows\<close>\<close>
  | RowCountMismatch nat nat    \<comment> \<open>\<^verbatim>\<open>Error: Row count mismatch! Queries=<n>, Neighbors=<m>\<close>\<close>
  | FilteringQueries int        \<comment> \<open>\<^verbatim>\<open>Filtering queries with >= <k> neighbors...\<close>\<close>
  | KeptRemoved nat nat
  | WritingFiles
  | WrittenFile string nat
  | FinalSummary nat nat nat

text \<open>How \<^verbatim>\<open>main\<close> ends: it returns its exit status, or an exception escapes, which
  ends the process with status 1.\<close>

datatype outcome = Returned nat | Raised error

fun exit_status :: "outcome \<Rightarrow> nat" where
  "exit_status (Returned code) = code"
| "exit_status (Raised e) = 1"

record ('q, 'n) filter_result =
  outcome :: outcome
  printed :: "print_line list"
  queries_parquet :: "(nat \<times> 'q) list option"
  neighbors_parquet :: "(nat \<times> 'n list option) list option"
  id_mapping_csv :: "(nat \<times> int \<times> string \<times> nat) list option"

text \<open>The filter loop over \<^verbatim>\<open>range(total_queries)\<close>; both tables have that many rows
  when it runs.\<close>

record ('q, 'n) filtering =
  new_id :: nat
  filtered_queries :: "(nat \<times> 'q) list"
  filtered_neighbors :: "(nat \<times> 'n list option) list"
  id_mapping :: "(nat \<times> int \<times> string \<times> nat) list"
  removed_count :: nat

fun filter_loop ::
  "int \<Rightarrow> ('q \<Rightarrow> string) \<Rightarrow> ((int \<times> 'q) \<times> (int \<times> 'n list option)) list
     \<Rightarrow> ('q, 'n) filtering \<Rightarrow> ('q, 'n) filtering" where
  "filter_loop min_nb account_of [] st = st"
| "filter_loop min_nb account_of (((old_id, query), (neighbor_id, neighbors)) # rest) st =
     (let neighbor_count = (case neighbors of None \<Rightarrow> 0 | Some ns \<Rightarrow> length ns) in
      if int neighbor_count \<ge> min_nb then
        (let new = new_id st + 1;
             account_id = account_of query
         in filter_loop min_nb account_of rest
              (st\<lparr>new_id := new,
                  filtered_queries := filtered_queries st @ [(new, query)],
                  filtered_neighbors := filtered_neighbors st @ [(new, neighbors)],
                  id_mapping := id_mapping st @ [(new, old_id, account_id, neighbor_count)]\<rparr>))
      else filter_loop min_nb account_of rest (st\<lparr>removed_count := removed_count st + 1\<rparr>))"

text \<open>\<^verbatim>\<open>main\<close>.  The percentages printed after the loop divide by
  \<^verbatim>\<open>total_queries\<close>, which raises for two empty tables.\<close>

definition filter_main :: "('q \<Rightarrow> string) \<Rightarrow> ('q, 'n) filter_args \<Rightarrow> ('q, 'n) filter_result" where
  "filter_main account_of args =
     (let nothing = \<lparr>outcome = Returned 0, printed = [], queries_parquet = None,
                     neighbors_parquet = None, id_mapping_csv = None\<rparr>
      in case queries_file args of
           None \<Rightarrow> nothing\<lparr>outcome := Returned 1, printed := [QueriesNotFound]\<rparr>
         | Some queries_data \<Rightarrow>
             (case neighbors_file args of
                None \<Rightarrow> nothing\<lparr>outcome := Returned 1, printed := [NeighborsNotFound]\<rparr>
              | Some neighbors_data \<Rightarrow>
                  (let total_queries = length queries_data;
                       total_neighbors = length neighbors_data;
                       counted = [Banner (min_neighbors args), ReadingInputs,
                                  RowCounts total_queries total_neighbors]
                   in if total_queries \<noteq> total_neighbors then
                        nothing\<lparr>outcome := Returned 1,
                                printed := counted @ [RowCountMismatch total_queries total_neighbors]\<rparr>
                      else
                        (let st = filter_loop (min_neighbors args) account_of
                                    (zip queries_data neighbors_data)
                                    \<lparr>new_id = 0, filtered_queries = [], filtered_neighbors = [],
                                     id_mapping = [], removed_count = 0\<rparr>;
                             kept_count = length (filtered_queries st);
                             filtered = counted @ [FilteringQueries (min_neighbors args)]
                         in if total_queries = 0 then
                              nothing\<lparr>outcome := Raised ZeroDivisionError, printed := filtered\<rparr>
                            else
                              \<lparr>outcome = Returned 0,
                               printed = filtered @
                                 [KeptRemoved kept_count (removed_count st), WritingFiles,
                                  WrittenFile ''queries.parquet'' kept_count,
                                  WrittenFile ''neighbors.parquet'' kept_count,
                                  WrittenFile ''id_mapping.csv'' kept_count,
                                  FinalSummary total_queries kept_count (removed_count st)],
                               queries_parquet = Some (filtered_queries st),
                               neighbors_parquet = Some (filtered_neighbors st),
                               id_mapping_csv = Some (id_mapping st)\<rparr>))))"

text \<open>Whether a run wrote any output file.\<close>

definition wrote_output :: "('q, 'n) filter_result \<Rightarrow> bool" where
  "wrote_output r =
     (queries_parquet r \<noteq> None \<or> neighbors_parquet r \<noteq> None \<or> id_mapping_csv r \<noteq> None)"

text \<open>Example tables: \<open>n\<close> queries, and \<open>m\<close> neighbor rows of which row \<open>i\<close> lists \<open>i\<close>
  neighbors.\<close>

definition example_args :: "nat \<Rightarrow> nat \<Rightarrow> (string, nat) filter_args" where
  "example_args n m =
     \<lparr>queries_file = Some (map (\<lambda>i. (int i, ''q'')) [0..<n]),
      neighbors_file = Some (map (\<lambda>i. (int i, Some [0..<i])) [0..<m]),
      min_neighbors = 1\<rparr>"


section \<open>Lists, slices and shard directories\<close>

lemma tail_df_excess: "T < length df \<Longrightarrow> tail_df (length df - T) df = drop T df"
  by (simp add: tail_df_def)

lemma slice_df_length: "length (slice_df off n xs) = min n (length xs - off)"
  by (simp add: slice_df_def)

lemma slice_df_as_take: "slice_df off n xs = take (length (slice_df off n xs)) (drop off xs)"
  by (simp add: slice_df_def min_def)

lemma take_drop_split:
  assumes "a \<le> b" "b \<le> c"
  shows "take (c - a) (drop a xs) = take (b - a) (drop a xs) @ take (c - b) (drop b xs)"
proof -
  have "take ((b - a) + (c - b)) (drop a xs) = take (b - a) (drop a xs) @ take (c - b) (drop (b - a) (drop a xs))"
    by (rule take_add)
  moreover have "(b - a) + (c - b) = c - a" using assms by simp
  moreover have "drop (b - a) (drop a xs) = drop b xs" using assms by simp
  ultimately show ?thesis by simp
qed

lemma rows_of_Cons: "rows_of dir (i # idxs) = (case dir i of None \<Rightarrow> [] | Some df \<Rightarrow> df) @ rows_of dir idxs"
  by (simp add: rows_of_def)

lemma concat_filter_nonempty: "concat (filter (\<lambda>e. e \<noteq> []) xs) = concat xs"
  by (induction xs) auto

lemma rows_of_append: "rows_of dir (xs @ ys) = rows_of dir xs @ rows_of dir ys"
  by (simp add: rows_of_def)

lemma rows_of_cong: "(\<And>i. i \<in> set idxs \<Longrightarrow> d i = d' i) \<Longrightarrow> rows_of d idxs = rows_of d' idxs"
  by (simp add: rows_of_def cong: map_cong)

lemma filter_nonempty_Nil: "(filter (\<lambda>ch. ch \<noteq> []) xs = []) = (concat xs = [])"
  by (induction xs) auto

lemma concat_concat_map: "concat (concat (map F xs)) = concat (map (\<lambda>x. concat (F x)) xs)"
  by (induction xs) simp_all

lemma map_of_tabulate: "a \<in> set ids \<Longrightarrow> map_of (map (\<lambda>a. (a, f a)) ids) a = Some (f a)"
  by (induction ids) auto

lemma concat_map_concat:
  "concat (map (\<lambda>f. concat (map X (G f))) fs) = concat (map X (concat (map G fs)))"
  by (induction fs) simp_all

lemma remove_nth_mset:
  assumes "i < length rows"
  shows "add_mset (rows ! i) (mset (take i rows @ drop (Suc i) rows)) = mset rows"
proof -
  from assms have "rows = take i rows @ rows ! i # drop (Suc i) rows"
    by (rule id_take_nth_drop)
  then have "mset rows = mset (take i rows @ rows ! i # drop (Suc i) rows)" by simp
  then show ?thesis by simp
qed

lemma draw_rows_mset: "length rows = n \<Longrightarrow> mset (draw_rows gen k n rows) = mset rows"
proof (induction n arbitrary: rows k)
  case 0
  then show ?case by simp
next
  case (Suc n)
  then have nonempty: "rows \<noteq> []" by auto
  let ?i = "gen k mod length rows"
  from nonempty have i: "?i < length rows" by simp
  with Suc.prems have "length (take ?i rows @ drop (Suc ?i) rows) = n" by simp
  from Suc.IH [OF this] remove_nth_mset [OF i] nonempty show ?case
    by (simp add: Let_def)
qed


section \<open>Properties of the Interleaver\<close>

subsection \<open>The loops in closed form\<close>

lemma load_accounts_all:
  assumes "\<forall>a\<in>set ids. load a = Some (docs a)"
  shows "load_accounts load ids = map (\<lambda>a. (a, docs a)) ids"
  using assms by (induction ids) auto

lemma chunk_sizes_of_pos:
  assumes "0 < tmc"
  shows "chunk_sizes_of tmc dm = Inr (map (\<lambda>(a, df). (a, nat \<lceil>real (length df) / real tmc\<rceil>)) dm)"
  using assms by (induction dm) (auto simp: chunk_size_def)

lemma account_loop_closed:
  assumes "\<forall>a\<in>set ids. map_of dm a = Some (docs a) \<and> map_of cs a = Some (c a)"
  shows "account_loop dm cs g ids buf =
           Inr (buf @ filter (\<lambda>ch. ch \<noteq> []) (map (\<lambda>a. slice_df (g * c a) (c a) (docs a)) ids))"
  using assms by (induction ids arbitrary: buf) (auto simp: Let_def)

lemma round_loop_closed:
  assumes "\<forall>a\<in>set ids. map_of dm a = Some (docs a) \<and> map_of cs a = Some (c a)"
  shows "round_loop dm cs ids f R rounds buf =
           Inr (buf @ filter (\<lambda>ch. ch \<noteq> [])
                  (concat (map (\<lambda>r. map (\<lambda>a. slice_df ((f * R + r) * c a) (c a) (docs a)) ids) rounds)))"
  by (induction rounds arbitrary: buf) (simp_all add: Let_def account_loop_closed [OF assms])

lemma file_loop_closed:
  assumes maps: "\<forall>a\<in>set ids. map_of dm a = Some (docs a) \<and> map_of cs a = Some (c a)"
    and "distinct idxs"
  shows "\<exists>st'. file_loop dm cs ids R idxs st = Completed st'
           \<and> (\<forall>f. files st' f = (if f \<in> set idxs \<and> grid_shard ids docs c R f \<noteq> []
                                  then Some (grid_shard ids docs c R f) else files st f))
           \<and> created_files st' = created_files st @ filter (\<lambda>f. grid_shard ids docs c R f \<noteq> []) idxs"
  using \<open>distinct idxs\<close>
proof (induction idxs arbitrary: st)
  case Nil
  then show ?case by simp
next
  case (Cons f rest)
  let ?buf = "filter (\<lambda>ch. ch \<noteq> [])
                (concat (map (\<lambda>r. map (\<lambda>a. slice_df ((f * R + r) * c a) (c a) (docs a)) ids) [0..<R]))"
  have buf: "round_loop dm cs ids f R [0..<R] [] = Inr ?buf"
    by (simp add: round_loop_closed [OF maps])
  have content: "concat ?buf = grid_shard ids docs c R f"
    by (simp add: concat_filter_nonempty concat_concat_map grid_shard_def)
  have empty: "(?buf = []) = (grid_shard ids docs c R f = [])"
    by (simp add: filter_nonempty_Nil concat_concat_map grid_shard_def)
  from Cons.prems have f: "f \<notin> set rest" and dist: "distinct rest" by simp_all
  show ?case
  proof (cases "grid_shard ids docs c R f = []")
    case True
    with empty have step: "file_loop dm cs ids R (f # rest) st = file_loop dm cs ids R rest st"
      by (simp add: buf)
    from Cons.IH [OF dist, of st] True show ?thesis
      unfolding step by auto
  next
    case False
    let ?st = "st\<lparr>files := (files st)(f \<mapsto> grid_shard ids docs c R f),
                   created_files := created_files st @ [f]\<rparr>"
    from False empty content
    have step: "file_loop dm cs ids R (f # rest) st = file_loop dm cs ids R rest ?st"
      by (simp add: buf concat_df_def)
    from Cons.IH [OF dist, of ?st] False f show ?thesis
      unfolding step by auto
  qed
qed

lemma div_eq_band:
  assumes "0 < (R::nat)"
  shows "(g div R = f) = (f * R \<le> g \<and> g < f * R + R)"
proof
  assume "g div R = f"
  then have f: "f = g div R" by simp
  have "g div R * R \<le> g" by simp
  moreover have "g < g div R * R + R"
    using assms dividend_less_div_times [of R g] by (simp add: ac_simps)
  ultimately show "f * R \<le> g \<and> g < f * R + R" unfolding f by simp
next
  assume "f * R \<le> g \<and> g < f * R + R"
  then show "g div R = f"
    by (intro div_nat_eqI) (simp_all add: ac_simps)
qed

lemma band_upt: "map (\<lambda>r. f * R + r) [0..<R] = [f * R..<f * R + R]"
  using map_add_upt [of "f * R" R] by (simp add: ac_simps)

lemma filter_div_band:
  assumes "f < S" "0 < (R::nat)"
  shows "filter (\<lambda>g. g div R = f) [0..<S * R] = map (\<lambda>r. f * R + r) [0..<R]"
proof -
  from assms(1) have "Suc f * R \<le> S * R"
    by (intro mult_le_mono1) simp
  then have top: "f * R + R \<le> S * R" by (simp add: ac_simps)
  have "set (filter (\<lambda>g. g div R = f) [0..<S * R]) = set [f * R..<f * R + R]"
    using top by (auto simp: div_eq_band [OF assms(2)])
  moreover have "sorted (filter (\<lambda>g. g div R = f) [0..<S * R])"
    by (simp add: sorted_wrt_filter)
  moreover have "distinct (filter (\<lambda>g. g div R = f) [0..<S * R])"
    by simp
  ultimately have "filter (\<lambda>g. g div R = f) [0..<S * R] = [f * R..<f * R + R]"
    by (intro sorted_distinct_set_unique) simp_all
  then show ?thesis by (simp add: band_upt)
qed

lemma spec_shard_grid:
  assumes "f < S" "0 < R"
  shows "spec_shard accounts docs S R f =
           grid_shard (sort (remdups accounts)) docs (\<lambda>a. spec_chunk_size S R (length (docs a))) R f"
  unfolding spec_shard_def grid_shard_def filter_div_band [OF assms]
  by (simp add: slice_df_def o_def)

lemma process_data_closed:
  assumes nonempty: "all_files \<noteq> []" and S: "0 < S" and R: "0 < R"
    and loaded: "\<forall>a\<in>fst ` set all_files. load_account all_files id_col row_order a = Some (docs a)"
  shows "\<exists>st. process_data all_files id_col row_order out0 S R = Completed st
           \<and> (\<forall>f<S. files st f = (if spec_shard (map fst all_files) docs S R f = [] then out0 f
                                  else Some (spec_shard (map fst all_files) docs S R f)))
           \<and> created_files st = filter (\<lambda>f. spec_shard (map fst all_files) docs S R f \<noteq> []) [0..<S]"
proof -
  let ?accs = "map fst all_files"
  let ?load = "load_account all_files id_col row_order"
  let ?ids = "sort (remdups ?accs)"
  let ?c = "\<lambda>a. spec_chunk_size S R (length (docs a))"
  let ?dm = "map (\<lambda>a. (a, docs a)) ?ids"
  let ?cs = "map (\<lambda>a. (a, ?c a)) ?ids"
  let ?st0 = "\<lparr>files = out0, created_files = []\<rparr>"
  have ids: "\<forall>a\<in>set ?ids. ?load a = Some (docs a)"
    using loaded by simp
  have dm: "load_accounts ?load ?ids = ?dm"
    by (rule load_accounts_all [OF ids])
  from S R have tmc: "0 < S * R" by simp
  have cs: "chunk_sizes_of (S * R) ?dm = Inr ?cs"
    unfolding chunk_sizes_of_pos [OF tmc] by (simp add: spec_chunk_size_def o_def)
  have maps: "\<forall>a\<in>set ?ids. map_of ?dm a = Some (docs a) \<and> map_of ?cs a = Some (?c a)"
    by (simp add: map_of_tabulate del: set_sort set_remdups)
  have run: "process_data all_files id_col row_order out0 S R = file_loop ?dm ?cs ?ids R [0..<S] ?st0"
    using nonempty by (simp add: process_data_def Let_def dm cs)
  have "distinct [0..<S]" by simp
  from file_loop_closed [OF maps this, of R ?st0] obtain st where
    st: "file_loop ?dm ?cs ?ids R [0..<S] ?st0 = Completed st"
    and files: "\<forall>f. files st f = (if f \<in> set [0..<S] \<and> grid_shard ?ids docs ?c R f \<noteq> []
                                  then Some (grid_shard ?ids docs ?c R f) else files ?st0 f)"
    and created: "created_files st = created_files ?st0 @ filter (\<lambda>f. grid_shard ?ids docs ?c R f \<noteq> []) [0..<S]"
    by blast
  have grid: "grid_shard ?ids docs ?c R f = spec_shard ?accs docs S R f" if "f < S" for f
    by (rule spec_shard_grid [OF that R, symmetric])
  have "\<forall>f<S. files st f = (if spec_shard ?accs docs S R f = [] then out0 f
                                  else Some (spec_shard ?accs docs S R f))"
    using files grid by simp
  moreover have "created_files st = filter (\<lambda>f. spec_shard ?accs docs S R f \<noteq> []) [0..<S]"
    unfolding created using grid by (auto intro: filter_cong)
  ultimately show ?thesis using run st by simp
qed

subsection \<open>The frame loaded for an account\<close>




lemma unique_first_distinct:
  assumes "distinct (map key rows)" "key ` set rows \<inter> set seen = {}"
  shows "unique_first key seen rows = rows"
  using assms by (induction rows arbitrary: seen) auto

text \<open>The first row of every id is kept, and no other row.\<close>

lemma unique_first_set:
  "set (unique_first key seen rows) \<subseteq> set rows"
  by (induction rows arbitrary: seen) auto

lemma unique_first_keys:
  "key ` set (unique_first key seen rows) = key ` set rows - set seen"
  by (induction rows arbitrary: seen) auto

lemma unique_first_distinct_keys:
  "distinct (map key (unique_first key seen rows))"
  by (induction rows arbitrary: seen) (auto simp: unique_first_keys)


lemma load_account_Some:
  "(\<exists>df. load_account all_files id_col row_order a = Some df)
     = (read_files (files_by_account all_files a) \<noteq> [])"
  by (auto simp: load_account_def Let_def split: option.splits)

subsection \<open>Two accounts, two shards, two rounds\<close>






subsection \<open>The chunk grid covers every account once\<close>

lemma chunks_cover: "concat (map (\<lambda>g. take c (drop (g * c) xs)) [0..<n]) = take (n * c) xs"
proof (induction n)
  case 0
  then show ?case by simp
next
  case (Suc n)
  have "take (n * c + c) xs = take (n * c) xs @ take c (drop (n * c) xs)"
    by (rule take_add)
  with Suc show ?case by (simp add: ac_simps)
qed

lemma ceiling_covers:
  assumes "0 < m"
  shows "n \<le> m * nat \<lceil>real n / real m\<rceil>"
proof -
  let ?c = "\<lceil>real n / real m\<rceil>"
  from assms have m: "0 < real m" by simp
  have "0 \<le> real n / real m" by simp
  then have c0: "0 \<le> ?c" by (simp only: zero_le_ceiling)
  have "real n / real m \<le> of_int ?c" by (rule le_of_int_ceiling)
  then have "real n \<le> of_int ?c * real m"
    using m by (simp only: pos_divide_le_eq)
  also have "of_int ?c * real m = real (nat ?c * m)"
    using c0 by simp
  finally have "n \<le> nat ?c * m" by (simp only: of_nat_le_iff)
  then show ?thesis by (simp add: ac_simps)
qed

lemma chunk_grid_covers:
  assumes "0 < S * R"
  shows "concat (map (\<lambda>g. take (spec_chunk_size S R (length xs))
                            (drop (g * spec_chunk_size S R (length xs)) xs)) [0..<S * R]) = xs"
  unfolding chunks_cover spec_chunk_size_def using ceiling_covers [OF assms, of "length xs"] by simp

lemma mset_grid_swap:
  "mset (concat (map (\<lambda>g. concat (map (\<lambda>a. F a g) as)) gs))
     = (\<Sum>a\<leftarrow>as. mset (concat (map (F a) gs)))"
proof (induction gs)
  case Nil
  then show ?case by (induction as) simp_all
next
  case (Cons g gs)
  have "mset (concat (map (\<lambda>a. F a g) as)) = (\<Sum>a\<leftarrow>as. mset (F a g))"
    by (simp add: mset_concat o_def)
  with Cons show ?case
    by (simp add: sum_list_addf)
qed

lemma bands_concat: "concat (map (\<lambda>f. map (\<lambda>r. f * R + r) [0..<R]) [0..<S]) = [0..<S * R]"
proof (induction S)
  case 0
  then show ?case by simp
next
  case (Suc S)
  let ?band = "\<lambda>f. map (\<lambda>r. f * R + r) [0..<R]"
  have "concat (map ?band [0..<Suc S]) = concat (map ?band [0..<S]) @ ?band S" by simp
  also have "\<dots> = [0..<S * R] @ [S * R..<S * R + R]"
    unfolding Suc by (simp only: band_upt)
  also have "\<dots> = [0..<S * R + R]" by (rule upt_add_eq_append [symmetric]) simp
  also have "S * R + R = Suc S * R" by simp
  finally show ?case .
qed

lemma spec_shards_concat:
  assumes "0 < R"
  shows "concat (map (spec_shard accounts docs S R) [0..<S]) =
         concat (map (\<lambda>g. concat (map (\<lambda>a. take (spec_chunk_size S R (length (docs a)))
                                          (drop (g * spec_chunk_size S R (length (docs a))) (docs a)))
                                 (sort (remdups accounts)))) [0..<S * R])"
proof -
  let ?X = "\<lambda>g. concat (map (\<lambda>a. take (spec_chunk_size S R (length (docs a)))
                                          (drop (g * spec_chunk_size S R (length (docs a))) (docs a)))
                                 (sort (remdups accounts)))"
  let ?band = "\<lambda>f. map (\<lambda>r. f * R + r) [0..<R]"
  have "spec_shard accounts docs S R f = concat (map ?X (?band f))" if "f \<in> set [0..<S]" for f
  proof -
    from that have "f < S" by simp
    from filter_div_band [OF this assms] show ?thesis
      unfolding spec_shard_def by (simp only:)
  qed
  then have "map (spec_shard accounts docs S R) [0..<S] = map (\<lambda>f. concat (map ?X (?band f))) [0..<S]"
    by (intro map_cong refl)
  then have "concat (map (spec_shard accounts docs S R) [0..<S])
               = concat (map (\<lambda>f. concat (map ?X (?band f))) [0..<S])"
    by (rule arg_cong)
  also have "\<dots> = concat (map ?X (concat (map ?band [0..<S])))"
    by (rule concat_map_concat)
  finally show ?thesis by (simp only: bands_concat)
qed

lemma spec_shards_conserve:
  assumes "0 < S" "0 < R"
  shows "mset (concat (map (spec_shard accounts docs S R) [0..<S]))
           = mset (concat (map docs (sort (remdups accounts))))"
proof -
  from assms have tmc: "0 < S * R" by simp
  show ?thesis
    unfolding spec_shards_concat [OF assms(2)] mset_grid_swap chunk_grid_covers [OF tmc]
    by (simp add: mset_concat o_def)
qed

text \<open>The Interleaver neither drops nor repeats a document: into a directory without
  stale shard files it writes, as a multiset, exactly the documents loaded for the
  accounts.\<close>

lemma process_data_conserves:
  assumes nonempty: "all_files \<noteq> []" and S: "0 < S" and R: "0 < R"
    and loaded: "\<forall>a\<in>fst ` set all_files. load_account all_files id_col row_order a = Some (docs a)"
    and fresh: "\<forall>f<S. out0 f = None"
  shows "\<exists>st. process_data all_files id_col row_order out0 S R = Completed st
           \<and> mset (rows_of (files st) [0..<S])
               = mset (concat (map docs (sort (remdups (map fst all_files)))))"
proof -
  let ?accs = "map fst all_files"
  from process_data_closed [OF nonempty S R loaded, of out0] obtain st where
    run: "process_data all_files id_col row_order out0 S R = Completed st" and
    files: "\<forall>f<S. files st f = (if spec_shard ?accs docs S R f = [] then out0 f
                                  else Some (spec_shard ?accs docs S R f))"
    by blast
  have "(case files st f of None \<Rightarrow> [] | Some df \<Rightarrow> df) = spec_shard ?accs docs S R f"
    if "f \<in> set [0..<S]" for f
    using that files fresh by auto
  then have "map (\<lambda>i. case files st i of None \<Rightarrow> [] | Some df \<Rightarrow> df) [0..<S]
          = map (spec_shard ?accs docs S R) [0..<S]"
    by (intro map_cong refl)
  then have "rows_of (files st) [0..<S] = concat (map (spec_shard ?accs docs S R) [0..<S])"
    unfolding rows_of_def by (rule arg_cong)
  with run spec_shards_conserve [OF S R] show ?thesis by simp
qed

subsection \<open>An account that could not be loaded\<close>

lemma map_of_load_accounts:
  "map_of (load_accounts load ids) a = (if a \<in> set ids then load a else None)"
  by (induction ids) (auto split: option.splits)

lemma chunk_sizes_keys:
  assumes "chunk_sizes_of tmc dm = Inr cs"
  shows "map fst cs = map fst dm"
  using assms
  by (induction dm arbitrary: cs) (auto split: sum.splits)

lemma account_loop_KeyError:
  assumes "\<exists>a\<in>set ids. map_of dm a = None"
  shows "\<exists>a\<in>set ids. (map_of dm a = None \<or> map_of cs a = None)
           \<and> account_loop dm cs g ids buf = Inl (KeyError a)"
  using assms
proof (induction ids arbitrary: buf)
  case Nil
  then show ?case by simp
next
  case (Cons a ids)
  show ?case
  proof (cases "map_of dm a = None \<or> map_of cs a = None")
    case True
    then show ?thesis by (auto split: option.splits)
  next
    case False
    then obtain df c where "map_of dm a = Some df" "map_of cs a = Some c" by auto
    moreover from False Cons.prems have "\<exists>a\<in>set ids. map_of dm a = None" by auto
    from Cons.IH [OF this] have "\<exists>b\<in>set ids. (map_of dm b = None \<or> map_of cs b = None)
           \<and> account_loop dm cs g ids (if length (slice_df (g * c) c df) > 0
                then buf @ [slice_df (g * c) c df] else buf) = Inl (KeyError b)" .
    ultimately show ?thesis by (auto simp: Let_def)
  qed
qed

text \<open>An account none of whose files could be read has no entry in \<^verbatim>\<open>data_map\<close> but
  stays in \<^verbatim>\<open>sorted_account_ids\<close>: the first round of the first file raises
  \<^verbatim>\<open>KeyError\<close> and nothing is written.\<close>

lemma process_data_unloaded_account:
  assumes "0 < S" "0 < R"
    "\<exists>a\<in>fst ` set all_files. load_account all_files id_col row_order a = None"
  shows "\<exists>a\<in>fst ` set all_files. load_account all_files id_col row_order a = None
           \<and> process_data all_files id_col row_order out0 S R
                = Aborted (KeyError a) \<lparr>files = out0, created_files = []\<rparr>"
proof -
  define load where "load = load_account all_files id_col row_order"
  define ids where "ids = sort (remdups (map fst all_files))"
  define dm where "dm = load_accounts load ids"
  define cs where "cs = map (\<lambda>(a, df). (a, nat \<lceil>real (length df) / real (S * R)\<rceil>)) dm"
  define st0 where "st0 = \<lparr>files = out0, created_files = []\<rparr>"
  from assms(3) have nonempty: "all_files \<noteq> []" by auto
  from assms(1,2) have tmc: "0 < S * R" by simp
  have cs: "chunk_sizes_of (S * R) dm = Inr cs"
    unfolding cs_def by (rule chunk_sizes_of_pos [OF tmc])
  have keys: "map_of cs a = None \<longleftrightarrow> map_of dm a = None" for a
  proof -
    from chunk_sizes_keys [OF cs] have "fst ` set cs = fst ` set dm"
      by (metis set_map)
    then show ?thesis by (simp only: map_of_eq_None_iff)
  qed
  from assms(3) have "\<exists>a\<in>set ids. map_of dm a = None"
    by (simp add: map_of_load_accounts dm_def ids_def load_def)
  from account_loop_KeyError [OF this, of cs "0 * R + 0" "[]"] keys obtain a where
    a: "a \<in> set ids" "map_of dm a = None"
      "account_loop dm cs (0 * R + 0) ids [] = Inl (KeyError a)"
    by blast
  from a(1,2) have "a \<in> fst ` set all_files" "load a = None"
    by (simp_all add: map_of_load_accounts dm_def ids_def)
  moreover from assms(2) have rounds: "[0..<R] = 0 # [Suc 0..<R]"
    by (rule upt_conv_Cons)
  from assms(1) have shards: "[0..<S] = 0 # [Suc 0..<S]"
    by (rule upt_conv_Cons)
  have first: "round_loop dm cs ids 0 R [0..<R] [] = Inl (KeyError a)"
    unfolding rounds using a(3) by (simp add: Let_def)
  have "file_loop dm cs ids R [0..<S] st0 = Aborted (KeyError a) st0"
    unfolding shards by (simp add: first)
  moreover have "process_data all_files id_col row_order out0 S R = file_loop dm cs ids R [0..<S] st0"
    using nonempty cs unfolding process_data_def Let_def dm_def ids_def st0_def load_def by simp
  ultimately show ?thesis unfolding st0_def load_def by auto
qed

subsection \<open>Round-robin assignment\<close>





section \<open>Properties of the Streaming Merger and the Shuffler\<close>

subsection \<open>The merge loop\<close>

lemma write_batches_result:
  "write_batches bs w n =
     (if bs = [] then w else Some (open_writer w @ bs), n + length (concat bs))"
  by (induction bs arbitrary: w n) (auto simp: Let_def open_writer_def split: option.splits)

lemma write_batches_writer:
  "fst (write_batches bs w 0) = (if bs = [] then w else Some (open_writer w @ bs))"
  by (simp add: write_batches_result)

text \<open>One turn of the loop over the account directories, by the kind of part file.\<close>

lemma merge_loop_missing:
  assumes "part_of d idx = None"
  shows "merge_loop idx (d # dirs) st =
           merge_loop idx dirs (st\<lparr>merge_log := merge_log st @ [MissingWarning (part_path d idx)]\<rparr>)"
  using assms by simp

lemma merge_loop_batches:
  assumes "part_of d idx = Some (Batches bs)"
  shows "merge_loop idx (d # dirs) st =
           merge_loop idx dirs
             (st\<lparr>writer := fst (write_batches bs (writer st) 0),
                 total_docs := total_docs st + length (concat bs),
                 accounts_processed := accounts_processed st + 1,
                 merge_log := merge_log st @
                   (if (accounts_processed st + 1) mod 10 = 0
                    then [MergeProgress (accounts_processed st + 1) (total_docs st + length (concat bs))]
                    else [])\<rparr>)"
  using assms by (simp add: Let_def write_batches_result)

lemma merge_loop_broken:
  assumes "part_of d idx = Some (Broken bs)"
  shows "merge_loop idx (d # dirs) st =
           merge_loop idx dirs
             (st\<lparr>writer := fst (write_batches bs (writer st) 0),
                 merge_log := merge_log st @ [ReadError (part_path d idx)]\<rparr>)"
  using assms by (simp add: Let_def write_batches_result)

lemma merge_loop_rejected:
  assumes "part_of d idx = Some (Rejected bs)"
  shows "merge_loop idx (d # dirs) st =
           merge_loop idx dirs
             (st\<lparr>writer := Some (open_writer (fst (write_batches bs (writer st) 0))),
                 merge_log := merge_log st @ [ReadError (part_path d idx)]\<rparr>)"
  using assms by (simp add: Let_def write_batches_result)

lemma part_file_cases:
  obtains (missing) "part_of d idx = None"
  | (batches) bs where "part_of d idx = Some (Batches bs)"
  | (broken) bs where "part_of d idx = Some (Broken bs)"
  | (rejected) bs where "part_of d idx = Some (Rejected bs)"
proof (cases "part_of d idx")
  case None
  then show ?thesis by (rule missing)
next
  case (Some pf)
  then show ?thesis by (cases pf) (auto intro: batches broken rejected)
qed

lemma merge_loop_total:
  "total_docs (merge_loop idx dirs st) = total_docs st + sum_list (map (rows_read idx) dirs)"
proof (induction dirs arbitrary: st)
  case Nil
  then show ?case by simp
next
  case (Cons d dirs)
  show ?case
  proof (cases d idx rule: part_file_cases)
    case missing
    then have "rows_read idx d = 0" by (simp add: rows_read_def)
    then show ?thesis
      unfolding merge_loop_missing [OF missing] Cons.IH by simp
  next
    case (batches bs)
    then have "rows_read idx d = length (concat bs)" by (simp add: rows_read_def)
    then show ?thesis
      unfolding merge_loop_batches [OF batches] Cons.IH by simp
  next
    case (broken bs)
    then have "rows_read idx d = 0" by (simp add: rows_read_def)
    then show ?thesis
      unfolding merge_loop_broken [OF broken] Cons.IH by simp
  next
    case (rejected bs)
    then have "rows_read idx d = 0" by (simp add: rows_read_def)
    then show ?thesis
      unfolding merge_loop_rejected [OF rejected] Cons.IH by simp
  qed
qed

lemma merge_loop_processed:
  "accounts_processed (merge_loop idx dirs st) =
     accounts_processed st + length (filter (\<lambda>d. \<exists>bs. part_of d idx = Some (Batches bs)) dirs)"
proof (induction dirs arbitrary: st)
  case Nil
  then show ?case by simp
next
  case (Cons d dirs)
  show ?case
  proof (cases d idx rule: part_file_cases)
    case missing
    then show ?thesis
      unfolding merge_loop_missing [OF missing] Cons.IH by simp
  next
    case (batches bs)
    then show ?thesis
      unfolding merge_loop_batches [OF batches] Cons.IH by simp
  next
    case (broken bs)
    then show ?thesis
      unfolding merge_loop_broken [OF broken] Cons.IH by simp
  next
    case (rejected bs)
    then show ?thesis
      unfolding merge_loop_rejected [OF rejected] Cons.IH by simp
  qed
qed

lemma not_opening_writes_nothing:
  assumes "\<not> opens_writer idx d"
  shows "batches_written idx d = []"
  using assms
  by (cases d idx rule: part_file_cases) (simp_all add: opens_writer_def batches_written_def)

lemma none_opening_writes_nothing:
  assumes "\<not> list_ex (opens_writer idx) dirs"
  shows "concat (map (batches_written idx) dirs) = []"
  using assms by (induction dirs) (simp_all add: not_opening_writes_nothing)

text \<open>The writer after the loop: created as soon as one part file creates it, and then
  holding every batch written, in order.\<close>

lemma merge_loop_writer:
  "writer (merge_loop idx dirs st) =
     (if list_ex (opens_writer idx) dirs
      then Some (open_writer (writer st) @ concat (map (batches_written idx) dirs))
      else writer st)"
proof (induction dirs arbitrary: st)
  case Nil
  then show ?case by simp
next
  case (Cons d dirs)
  have step: "\<exists>st'. merge_loop idx (d # dirs) st = merge_loop idx dirs st'
       \<and> writer st' = (if opens_writer idx d
                        then Some (open_writer (writer st) @ batches_written idx d) else writer st)
       \<and> (\<not> opens_writer idx d \<longrightarrow> batches_written idx d = [])"
  proof (cases d idx rule: part_file_cases)
    case missing
    have "\<not> opens_writer idx d" "batches_written idx d = []"
      by (simp_all add: opens_writer_def batches_written_def missing)
    with merge_loop_missing [OF missing, of dirs st] show ?thesis
      by (intro exI [of _ "st\<lparr>merge_log := merge_log st @ [MissingWarning (part_path d idx)]\<rparr>"])
         simp
  next
    case (batches bs)
    have "opens_writer idx d = (bs \<noteq> [])" "batches_written idx d = bs"
      by (simp_all add: opens_writer_def batches_written_def batches)
    with merge_loop_batches [OF batches, of dirs st] show ?thesis
      by (intro exI [of _ "st\<lparr>writer := fst (write_batches bs (writer st) 0),
                 total_docs := total_docs st + length (concat bs),
                 accounts_processed := accounts_processed st + 1,
                 merge_log := merge_log st @
                   (if (accounts_processed st + 1) mod 10 = 0
                    then [MergeProgress (accounts_processed st + 1) (total_docs st + length (concat bs))]
                    else [])\<rparr>"])
         (simp add: write_batches_writer)
  next
    case (broken bs)
    have "opens_writer idx d = (bs \<noteq> [])" "batches_written idx d = bs"
      by (simp_all add: opens_writer_def batches_written_def broken)
    with merge_loop_broken [OF broken, of dirs st] show ?thesis
      by (intro exI [of _ "st\<lparr>writer := fst (write_batches bs (writer st) 0),
                 merge_log := merge_log st @ [ReadError (part_path d idx)]\<rparr>"])
         (simp add: write_batches_writer)
  next
    case (rejected bs)
    have "opens_writer idx d" "batches_written idx d = bs"
      by (simp_all add: opens_writer_def batches_written_def rejected)
    with merge_loop_rejected [OF rejected, of dirs st] show ?thesis
      by (intro exI [of _ "st\<lparr>writer := Some (open_writer (fst (write_batches bs (writer st) 0))),
                 merge_log := merge_log st @ [ReadError (part_path d idx)]\<rparr>"])
         (simp add: write_batches_writer open_writer_def)
  qed
  then obtain st' where run: "merge_loop idx (d # dirs) st = merge_loop idx dirs st'"
    and w: "writer st' = (if opens_writer idx d
                        then Some (open_writer (writer st) @ batches_written idx d) else writer st)"
    and none: "\<not> opens_writer idx d \<longrightarrow> batches_written idx d = []"
    by blast
  show ?case
  proof (cases "list_ex (opens_writer idx) dirs")
    case True
    then show ?thesis
      unfolding run Cons.IH w using none by (simp add: open_writer_def)
  next
    case False
    from none_opening_writes_nothing [OF this] False show ?thesis
      unfolding run Cons.IH w by simp
  qed
qed

lemma stage_trace_append: "stage_trace (xs @ ys) = stage_trace xs @ stage_trace ys"
  by (simp add: stage_trace_def List.map_filter_def)

lemma stage_trace_simps:
  "stage_trace [] = []"
  "stage_trace (line # lines) = (case stage_of line of None \<Rightarrow> [] | Some e \<Rightarrow> [e]) @ stage_trace lines"
  by (simp_all add: stage_trace_def List.map_filter_def split: option.splits)

lemma merge_loop_log:
  "\<exists>lines. merge_log (merge_loop idx dirs st) = merge_log st @ lines
      \<and> stage_trace lines = []
      \<and> filter is_missing_warning lines
          = map (\<lambda>d. MissingWarning (part_path d idx)) (filter (\<lambda>d. part_of d idx = None) dirs)"
proof (induction dirs arbitrary: st)
  case Nil
  then show ?case by (simp add: stage_trace_simps)
next
  case (Cons d dirs)
  let ?missing = "\<lambda>dirs. map (\<lambda>d. MissingWarning (part_path d idx)) (filter (\<lambda>d. part_of d idx = None) dirs)"
  have step: "\<exists>st' new. merge_loop idx (d # dirs) st = merge_loop idx dirs st'
      \<and> merge_log st' = merge_log st @ new \<and> stage_trace new = []
      \<and> filter is_missing_warning new @ ?missing dirs = ?missing (d # dirs)"
  proof (cases d idx rule: part_file_cases)
    case missing
    let ?new = "[MissingWarning (part_path d idx)]"
    have "stage_trace ?new = []" "filter is_missing_warning ?new @ ?missing dirs = ?missing (d # dirs)"
      by (simp_all add: stage_trace_simps missing)
    with merge_loop_missing [OF missing, of dirs st] show ?thesis
      by (intro exI [of _ "st\<lparr>merge_log := merge_log st @ ?new\<rparr>"] exI [of _ ?new]) simp
  next
    case (batches bs)
    let ?new = "if (accounts_processed st + 1) mod 10 = 0
                then [MergeProgress (accounts_processed st + 1) (total_docs st + length (concat bs))]
                else []"
    have "stage_trace ?new = []" "filter is_missing_warning ?new @ ?missing dirs = ?missing (d # dirs)"
      by (simp_all add: stage_trace_simps batches)
    with merge_loop_batches [OF batches, of dirs st] show ?thesis
      by (intro exI [of _ "st\<lparr>writer := fst (write_batches bs (writer st) 0),
                 total_docs := total_docs st + length (concat bs),
                 accounts_processed := accounts_processed st + 1,
                 merge_log := merge_log st @ ?new\<rparr>"] exI [of _ ?new]) simp
  next
    case (broken bs)
    let ?new = "[ReadError (part_path d idx)]"
    have "stage_trace ?new = []" "filter is_missing_warning ?new @ ?missing dirs = ?missing (d # dirs)"
      by (simp_all add: stage_trace_simps broken)
    with merge_loop_broken [OF broken, of dirs st] show ?thesis
      by (intro exI [of _ "st\<lparr>writer := fst (write_batches bs (writer st) 0),
                 merge_log := merge_log st @ ?new\<rparr>"] exI [of _ ?new]) simp
  next
    case (rejected bs)
    let ?new = "[ReadError (part_path d idx)]"
    have "stage_trace ?new = []" "filter is_missing_warning ?new @ ?missing dirs = ?missing (d # dirs)"
      by (simp_all add: stage_trace_simps rejected)
    with merge_loop_rejected [OF rejected, of dirs st] show ?thesis
      by (intro exI [of _ "st\<lparr>writer := Some (open_writer (fst (write_batches bs (writer st) 0))),
                 merge_log := merge_log st @ ?new\<rparr>"] exI [of _ ?new]) simp
  qed
  then obtain st' new where
    run: "merge_loop idx (d # dirs) st = merge_loop idx dirs st'" and
    new: "merge_log st' = merge_log st @ new" "stage_trace new = []"
      "filter is_missing_warning new @ ?missing dirs = ?missing (d # dirs)"
    by blast
  from Cons.IH [of st'] obtain lines where
    lines: "merge_log (merge_loop idx dirs st') = merge_log st' @ lines" "stage_trace lines = []"
      "filter is_missing_warning lines = ?missing dirs"
    by blast
  show ?case
  proof (intro exI [of _ "new @ lines"] conjI)
    show "merge_log (merge_loop idx (d # dirs) st) = merge_log st @ new @ lines"
      by (simp only: run lines(1) new(1) append_assoc)
    show "stage_trace (new @ lines) = []"
      by (simp add: stage_trace_append new(2) lines(2))
    show "filter is_missing_warning (new @ lines) = ?missing (d # dirs)"
      using new(3) lines(3) by simp
  qed
qed


subsection \<open>The result of \<^verbatim>\<open>merge_partition\<close>\<close>

lemma merge_partition_count:
  "snd (merge_partition idx dirs output_name w) = sum_list (map (rows_read idx) dirs)"
  by (simp add: merge_partition_def Let_def merge_loop_total)

lemma merge_partition_out:
  "out_files (fst (merge_partition idx dirs output_name w)) =
     (if list_ex (opens_writer idx) dirs
      then (out_files w)(output_name \<mapsto> Parquet (concat (concat (map (batches_written idx) dirs))))
      else out_files w)"
  by (simp add: merge_partition_def Let_def merge_loop_writer open_writer_def)

lemma merge_partition_log:
  "\<exists>lines. log_lines (fst (merge_partition idx dirs output_name w)) =
       log_lines w @ [MergeStart idx] @ lines
         @ [MergeComplete (sum_list (map (rows_read idx) dirs))
              (length (filter (\<lambda>d. \<exists>bs. part_of d idx = Some (Batches bs)) dirs))]
     \<and> stage_trace lines = []
     \<and> filter is_missing_warning lines
          = map (\<lambda>d. MissingWarning (part_path d idx)) (filter (\<lambda>d. part_of d idx = None) dirs)"
proof -
  let ?st0 = "\<lparr>writer = None, total_docs = 0, accounts_processed = 0,
                merge_log = log_lines w @ [MergeStart idx]\<rparr> :: 'a merger"
  from merge_loop_log [of idx dirs ?st0] obtain lines where
    lines: "merge_log (merge_loop idx dirs ?st0) = merge_log ?st0 @ lines" "stage_trace lines = []"
      "filter is_missing_warning lines
          = map (\<lambda>d. MissingWarning (part_path d idx)) (filter (\<lambda>d. part_of d idx = None) dirs)"
    by blast
  have "log_lines (fst (merge_partition idx dirs output_name w)) =
       log_lines w @ [MergeStart idx] @ lines
         @ [MergeComplete (sum_list (map (rows_read idx) dirs))
              (length (filter (\<lambda>d. \<exists>bs. part_of d idx = Some (Batches bs)) dirs))]"
    by (simp add: merge_partition_def Let_def lines(1) merge_loop_total merge_loop_processed)
  with lines(2,3) show ?thesis by blast
qed

lemma merge_partition_trace:
  "stage_trace (log_lines (fst (merge_partition idx dirs output_name w))) =
     stage_trace (log_lines w) @ [MergeBegins idx, MergeEnded]"
proof -
  from merge_partition_log [of idx dirs output_name w] obtain lines n k where
    "log_lines (fst (merge_partition idx dirs output_name w)) =
       log_lines w @ [MergeStart idx] @ lines @ [MergeComplete n k]" "stage_trace lines = []"
    by blast
  then show ?thesis by (simp add: stage_trace_append stage_trace_simps)
qed

subsection \<open>Drawing without replacement\<close>

lemma sample_all_mset: "mset (sample_all gen df) = mset df"
  by (simp add: sample_all_def draw_rows_mset)

lemma shuffle_file_trace:
  "stage_trace (log_lines (fst (shuffle_file rng fault name w))) =
     stage_trace (log_lines w) @ [ShuffleBegins name]"
  by (simp add: shuffle_file_def Let_def stage_trace_append stage_trace_simps
        split: option.splits out_file.splits write_fault.splits)

subsection \<open>The trace of \<^verbatim>\<open>main\<close>\<close>

lemma process_partition_trace:
  "stage_trace (log_lines (fst (process_partition rng fault dirs p st))) =
     stage_trace (log_lines (fst st)) @ [MergeBegins p, MergeEnded, ShuffleBegins (shard_name p)]"
proof -
  obtain w counts where st: "st = (w, counts)" by (cases st)
  let ?w1 = "w\<lparr>log_lines := log_lines w @ [PartitionHeader p]\<rparr>"
  let ?w2 = "fst (merge_partition p dirs (shard_name p) ?w1)"
  let ?w3 = "?w2\<lparr>log_lines := log_lines ?w2 @ [SleepAfterMerge]\<rparr>"
  let ?w4 = "fst (shuffle_file rng fault (shard_name p) ?w3)"
  have w5: "log_lines (fst (process_partition rng fault dirs p st)) =
          log_lines ?w4 @ (if p < NUM_PARTITIONS - 1 then [SleepBeforeNext] else [])"
    by (simp add: process_partition_def st Let_def split: prod.splits)
  have "stage_trace (log_lines ?w4) =
          stage_trace (log_lines w) @ [MergeBegins p, MergeEnded, ShuffleBegins (shard_name p)]"
    by (simp add: shuffle_file_trace merge_partition_trace stage_trace_append stage_trace_simps)
  then show ?thesis
    unfolding w5 by (simp add: st stage_trace_append stage_trace_simps)
qed

lemma partition_loop_trace:
  "stage_trace (log_lines (fst (partition_loop rng fault dirs ps st))) =
     stage_trace (log_lines (fst st))
       @ concat (map (\<lambda>p. [MergeBegins p, MergeEnded, ShuffleBegins (shard_name p)]) ps)"
  by (induction ps arbitrary: st) (simp_all add: process_partition_trace)

lemma summary_trace: "stage_trace (summary ps counts) = []"
  by (induction ps) (simp_all add: summary_def Let_def stage_trace_append stage_trace_simps)

lemma merge_main_trace:
  assumes "get_account_dirs base \<noteq> []"
  shows "snd (merge_main rng fault arg base w) = 0"
    and "stage_trace (log_lines (fst (merge_main rng fault arg base w))) =
       stage_trace (log_lines w)
         @ concat (map (\<lambda>p. [MergeBegins p, MergeEnded, ShuffleBegins (shard_name p)])
                     (case arg of Some partition_idx \<Rightarrow> [partition_idx] | None \<Rightarrow> [0..<NUM_PARTITIONS]))"
  using assms
  by (simp_all add: merge_main_def Let_def case_prod_beta partition_loop_trace stage_trace_append
        summary_trace)



lemmas merge_eval =
  merge_main_def get_account_dirs_def example_base_def startswith_def empty_world_def
  process_partition_def merge_partition_def shuffle_file_def part_of_def part_name_def
  part_path_def extract_account_id_def fmt_02d_def digit_char_def shard_name_def
  NUM_PARTITIONS_def Let_def sample_all_def example_rng_def summary_def rows_read_def
  batches_written_def opens_writer_def open_writer_def

subsection \<open>Missing part files\<close>

text \<open>
  Claim C6.  Whatever part files are missing, \<^verbatim>\<open>merge_partition\<close> runs to its end: it
  logs the start line, then among its lines one warning for each account directory
  without its part file, in directory order, then the completion line, and returns.  The
  count it returns and logs is the sum of the row counts of the part files that were
  found and read to their end.  Once a part file has made the loop create the writer, the
  output file holds the batches written, in order (no rows at all when the only batch
  was rejected); when none has, the output file is left as it was.
\<close>

theorem merge_partition_tolerates_missing:
  "snd (merge_partition idx dirs output_name w) = sum_list (map (rows_read idx) dirs)
   \<and> (\<exists>lines. log_lines (fst (merge_partition idx dirs output_name w)) =
          log_lines w @ [MergeStart idx] @ lines
            @ [MergeComplete (sum_list (map (rows_read idx) dirs))
                 (length (filter (\<lambda>d. \<exists>bs. part_of d idx = Some (Batches bs)) dirs))]
        \<and> filter is_missing_warning lines
             = map (\<lambda>d. MissingWarning (part_path d idx)) (filter (\<lambda>d. part_of d idx = None) dirs))
   \<and> out_files (fst (merge_partition idx dirs output_name w)) =
       (if list_ex (opens_writer idx) dirs
        then (out_files w)(output_name \<mapsto> Parquet (concat (concat (map (batches_written idx) dirs))))
        else out_files w)"
  using merge_partition_count [of idx dirs output_name w] merge_partition_log [of idx dirs output_name w]
    merge_partition_out [of idx dirs output_name w]
  by blast

theorem merge_partition_tolerates_missing_witness:
  "snd (merge_partition 1 (get_account_dirs example_base) (shard_name 1) empty_world) = 1
   \<and> out_files (fst (merge_partition 1 (get_account_dirs example_base) (shard_name 1) empty_world))
       = [''shuffle_train_01.parquet'' \<mapsto> Parquet [(''1'', 3)]]
   \<and> (\<exists>lines. log_lines (fst (merge_partition 1 (get_account_dirs example_base) (shard_name 1) empty_world))
          = [MergeStart 1] @ lines @ [MergeComplete 1 1]
        \<and> filter is_missing_warning lines = [MissingWarning ''account_2_dataset/2_part_01.parquet''])
   \<and> snd (merge_partition 0 example_rejecting (shard_name 0) stale_world) = 0
   \<and> out_files (fst (merge_partition 0 example_rejecting (shard_name 0) stale_world))
       = [''shuffle_train_00.parquet'' \<mapsto> Parquet []]
   \<and> out_files (fst (merge_partition 1 example_rejecting (shard_name 1) stale_world))
       = [''shuffle_train_00.parquet'' \<mapsto> Parquet [(''0'', 9)]]"
proof -
  let ?dirs = "get_account_dirs example_base"
  have dirs: "?dirs = [example_base ! 1, example_base ! 0]"
    by (simp add: get_account_dirs_def example_base_def startswith_def)
  have rows: "sum_list (map (rows_read 1) ?dirs) = 1"
    unfolding dirs by (simp add: merge_eval)
  have good: "length (filter (\<lambda>d. \<exists>bs. part_of d 1 = Some (Batches bs)) ?dirs) = 1"
    unfolding dirs by (simp add: merge_eval)
  have missing: "map (\<lambda>d. MissingWarning (part_path d 1)) (filter (\<lambda>d. part_of d 1 = None) ?dirs)
                   = [MissingWarning ''account_2_dataset/2_part_01.parquet'']"
    unfolding dirs by (simp add: merge_eval)
  have written: "concat (map (batches_written 1) ?dirs) = [[(''1'', 3)]]"
    unfolding dirs by (simp add: merge_eval)
  have opened: "list_ex (opens_writer 1) ?dirs"
    unfolding dirs by (simp add: merge_eval)
  have name: "shard_name 1 = ''shuffle_train_01.parquet''" "shard_name 0 = ''shuffle_train_00.parquet''"
    by (simp_all add: merge_eval)
  from merge_partition_tolerates_missing [of 1 ?dirs "shard_name 1" empty_world]
  have first: "snd (merge_partition 1 ?dirs (shard_name 1) empty_world) = 1
   \<and> out_files (fst (merge_partition 1 ?dirs (shard_name 1) empty_world))
       = [''shuffle_train_01.parquet'' \<mapsto> Parquet [(''1'', 3)]]
   \<and> (\<exists>lines. log_lines (fst (merge_partition 1 ?dirs (shard_name 1) empty_world))
          = [MergeStart 1] @ lines @ [MergeComplete 1 1]
        \<and> filter is_missing_warning lines = [MissingWarning ''account_2_dataset/2_part_01.parquet''])"
    unfolding rows good missing written name using opened by (simp add: empty_world_def)
  have rej: "sum_list (map (rows_read 0) example_rejecting) = 0"
    "list_ex (opens_writer 0) example_rejecting"
    "concat (map (batches_written 0) example_rejecting) = []"
    "\<not> list_ex (opens_writer 1) example_rejecting"
    by (simp_all add: example_rejecting_def merge_eval)
  from merge_partition_tolerates_missing [of 0 example_rejecting "shard_name 0" stale_world]
  have second: "snd (merge_partition 0 example_rejecting (shard_name 0) stale_world) = 0
   \<and> out_files (fst (merge_partition 0 example_rejecting (shard_name 0) stale_world))
       = [''shuffle_train_00.parquet'' \<mapsto> Parquet []]"
    unfolding name using rej by (simp add: stale_world_def)
  from merge_partition_tolerates_missing [of 1 example_rejecting "shard_name 1" stale_world]
  have third: "out_files (fst (merge_partition 1 example_rejecting (shard_name 1) stale_world))
       = [''shuffle_train_00.parquet'' \<mapsto> Parquet [(''0'', 9)]]"
    using rej by (simp add: stale_world_def)
  from first second third show ?thesis by blast
qed

subsection \<open>The shuffle is a permutation\<close>

text \<open>
  Claim C5.  When the shard file is read and written back without fault,
  \<^verbatim>\<open>shuffle_file\<close> leaves in it a frame with the same multiset of rows, hence of
  document ids (\<open>ident\<close> is any column), as before.  More generally, whenever the file holds
  a readable frame before and after the call, the two have the same multiset of rows: no
  row is resampled, duplicated or dropped.  No other file is touched, and a shard file
  that cannot be read is left as it is.
\<close>

theorem shuffle_file_permutes:
  "(out_files w name = Some (Parquet df) \<and> fault name = NoFault \<longrightarrow>
      (\<exists>df'. out_files (fst (shuffle_file rng fault name w)) name = Some (Parquet df')
           \<and> mset df' = mset df \<and> mset (map ident df') = mset (map ident df)))
   \<and> (out_files w name = Some (Parquet df)
        \<and> out_files (fst (shuffle_file rng fault name w)) name = Some (Parquet df') \<longrightarrow>
          mset df' = mset df \<and> mset (map ident df') = mset (map ident df))
   \<and> (other \<noteq> name \<longrightarrow> out_files (fst (shuffle_file rng fault name w)) other = out_files w other)
   \<and> (out_files w name = None \<or> out_files w name = Some Garbage \<longrightarrow>
        out_files (fst (shuffle_file rng fault name w)) = out_files w)"
proof (intro conjI impI)
  assume a: "out_files w name = Some (Parquet df) \<and> fault name = NoFault"
  let ?df' = "sample_all (rng 42) df"
  from a have "out_files (fst (shuffle_file rng fault name w)) name = Some (Parquet ?df')"
    by (simp add: shuffle_file_def Let_def)
  moreover have "mset ?df' = mset df" by (rule sample_all_mset)
  moreover from this have "image_mset ident (mset ?df') = image_mset ident (mset df)" by simp
  ultimately show "\<exists>df'. out_files (fst (shuffle_file rng fault name w)) name = Some (Parquet df')
           \<and> mset df' = mset df \<and> mset (map ident df') = mset (map ident df)"
    by auto
next
  assume a: "out_files w name = Some (Parquet df)
        \<and> out_files (fst (shuffle_file rng fault name w)) name = Some (Parquet df')"
  then have "df' = sample_all (rng 42) df \<or> df' = df"
    by (cases "fault name") (auto simp: shuffle_file_def Let_def)
  then show "mset df' = mset df" by (auto simp: sample_all_mset)
  then have "image_mset ident (mset df') = image_mset ident (mset df)" by simp
  then show "mset (map ident df') = mset (map ident df)" by simp
next
  assume "other \<noteq> name"
  then show "out_files (fst (shuffle_file rng fault name w)) other = out_files w other"
    by (simp add: shuffle_file_def Let_def split: option.splits out_file.splits write_fault.splits)
next
  assume "out_files w name = None \<or> out_files w name = Some Garbage"
  then show "out_files (fst (shuffle_file rng fault name w)) = out_files w"
    by (auto simp: shuffle_file_def Let_def)
qed

theorem shuffle_file_permutes_witness:
  "out_files (fst (shuffle_file example_rng (\<lambda>name. NoFault) ''shuffle_train_00.parquet''
       \<lparr>out_files = [''shuffle_train_00.parquet'' \<mapsto> Parquet [1, 2, 3, 4 :: nat]], log_lines = []\<rparr>))
     ''shuffle_train_00.parquet'' = Some (Parquet [3, 2, 1, 4])
   \<and> mset [3, 2, 1, 4 :: nat] = mset [1, 2, 3, 4]"
proof -
  let ?name = "''shuffle_train_00.parquet''"
  let ?w = "\<lparr>out_files = [?name \<mapsto> Parquet [1, 2, 3, 4 :: nat]], log_lines = []\<rparr>"
  have run: "out_files (fst (shuffle_file example_rng (\<lambda>name. NoFault) ?name ?w)) ?name
               = Some (Parquet [3, 2, 1, 4])"
    by code_simp
  have "out_files ?w ?name = Some (Parquet [1, 2, 3, 4]) \<and> (\<lambda>name. NoFault) ?name = NoFault"
    by simp
  with shuffle_file_permutes [where w = ?w and name = ?name and df = "[1, 2, 3, 4]"
      and fault = "\<lambda>name. NoFault" and rng = example_rng, THEN conjunct1]
  have "\<exists>df'. out_files (fst (shuffle_file example_rng (\<lambda>name. NoFault) ?name ?w)) ?name = Some (Parquet df')
           \<and> mset df' = mset [1, 2, 3, 4]"
    by blast
  with run show ?thesis by auto
qed


subsection \<open>A failed shuffle\<close>

text \<open>
  Claim C8.  When the shard file is absent or unreadable, or writing it back raises,
  \<^verbatim>\<open>shuffle_file\<close> logs the error as its last line and returns 0; when reading and
  writing succeed it returns the row count of the shard.  Whatever faults occur, \<^verbatim>\<open>main\<close>
  (given at least one account directory) goes on to every partition it was to process,
  starts the shuffle of each of them in turn, and ends with exit status 0.
\<close>

theorem shuffle_failure_is_not_fatal:
  "((out_files w name = None \<or> out_files w name = Some Garbage \<or> fault name \<noteq> NoFault) \<longrightarrow>
       snd (shuffle_file rng fault name w) = 0
       \<and> last (log_lines (fst (shuffle_file rng fault name w))) = ShuffleError)
   \<and> (out_files w name = Some (Parquet df) \<and> fault name = NoFault \<longrightarrow>
       snd (shuffle_file rng fault name w) = length df
       \<and> log_lines (fst (shuffle_file rng fault name w)) =
           log_lines w @ [ShuffleStart name, ShuffleLoaded (length df), ShuffledRows, WrittenBack name])
   \<and> (get_account_dirs base \<noteq> [] \<longrightarrow>
       snd (merge_main rng fault arg base w) = 0
       \<and> filter is_shuffle_event (stage_trace (log_lines (fst (merge_main rng fault arg base w)))) =
           filter is_shuffle_event (stage_trace (log_lines w))
             @ map (\<lambda>p. ShuffleBegins (shard_name p))
                 (case arg of Some partition_idx \<Rightarrow> [partition_idx] | None \<Rightarrow> [0..<NUM_PARTITIONS]))"
proof (intro conjI impI)
  assume a: "out_files w name = None \<or> out_files w name = Some Garbage \<or> fault name \<noteq> NoFault"
  then show "snd (shuffle_file rng fault name w) = 0"
    by (auto simp: shuffle_file_def Let_def split: option.splits out_file.splits write_fault.splits)
  from a show "last (log_lines (fst (shuffle_file rng fault name w))) = ShuffleError"
    by (auto simp: shuffle_file_def Let_def split: option.splits out_file.splits write_fault.splits)
next
  assume a: "out_files w name = Some (Parquet df) \<and> fault name = NoFault"
  then show "snd (shuffle_file rng fault name w) = length df"
    by (simp add: shuffle_file_def Let_def)
  from a show "log_lines (fst (shuffle_file rng fault name w)) =
           log_lines w @ [ShuffleStart name, ShuffleLoaded (length df), ShuffledRows, WrittenBack name]"
    by (simp add: shuffle_file_def Let_def)
next
  assume a: "get_account_dirs base \<noteq> []"
  then show "snd (merge_main rng fault arg base w) = 0"
    by (rule merge_main_trace(1))
  have "filter is_shuffle_event (concat (map (\<lambda>p. [MergeBegins p, MergeEnded, ShuffleBegins (shard_name p)]) ps))
          = map (\<lambda>p. ShuffleBegins (shard_name p)) ps" for ps
    by (induction ps) simp_all
  then show "filter is_shuffle_event (stage_trace (log_lines (fst (merge_main rng fault arg base w)))) =
           filter is_shuffle_event (stage_trace (log_lines w))
             @ map (\<lambda>p. ShuffleBegins (shard_name p))
                 (case arg of Some partition_idx \<Rightarrow> [partition_idx] | None \<Rightarrow> [0..<NUM_PARTITIONS])"
    unfolding merge_main_trace(2) [OF a] by simp
qed

lemma example_dirs: "get_account_dirs example_base = [example_base ! 1, example_base ! 0]"
  by (simp add: get_account_dirs_def example_base_def startswith_def)

lemma shard_names:
  "map shard_name [0..<10] =
     [''shuffle_train_00.parquet'', ''shuffle_train_01.parquet'', ''shuffle_train_02.parquet'',
      ''shuffle_train_03.parquet'', ''shuffle_train_04.parquet'', ''shuffle_train_05.parquet'',
      ''shuffle_train_06.parquet'', ''shuffle_train_07.parquet'', ''shuffle_train_08.parquet'',
      ''shuffle_train_09.parquet'']"
  by (simp add: shard_name_def fmt_02d_def digit_char_def upt_rec)

theorem shuffle_failure_is_not_fatal_witness:
  "snd (shuffle_file example_rng (\<lambda>name. NoFault) ''shuffle_train_02.parquet''
        (empty_world :: nat world)) = 0
   \<and> last (log_lines (fst (shuffle_file example_rng (\<lambda>name. NoFault) ''shuffle_train_02.parquet''
        (empty_world :: nat world)))) = ShuffleError
   \<and> snd (shuffle_file example_rng (\<lambda>name. FailDuringWrite) ''shuffle_train_00.parquet''
        \<lparr>out_files = [''shuffle_train_00.parquet'' \<mapsto> Parquet [1, 2, 3 :: nat]], log_lines = []\<rparr>) = 0
   \<and> snd (shuffle_file example_rng (\<lambda>name. NoFault) ''shuffle_train_00.parquet''
        \<lparr>out_files = [''shuffle_train_00.parquet'' \<mapsto> Parquet [1, 2, 3 :: nat]], log_lines = []\<rparr>) = 3
   \<and> snd (merge_main example_rng (\<lambda>name. FailDuringWrite) None example_base empty_world) = 0
   \<and> filter is_shuffle_event (stage_trace (log_lines (fst
         (merge_main example_rng (\<lambda>name. FailDuringWrite) None example_base empty_world)))) =
       map ShuffleBegins
         [''shuffle_train_00.parquet'', ''shuffle_train_01.parquet'', ''shuffle_train_02.parquet'',
          ''shuffle_train_03.parquet'', ''shuffle_train_04.parquet'', ''shuffle_train_05.parquet'',
          ''shuffle_train_06.parquet'', ''shuffle_train_07.parquet'', ''shuffle_train_08.parquet'',
          ''shuffle_train_09.parquet'']"
proof -
  let ?w = "\<lparr>out_files = [''shuffle_train_00.parquet'' \<mapsto> Parquet [1, 2, 3 :: nat]], log_lines = []\<rparr>"
  note nf = shuffle_failure_is_not_fatal [where rng = example_rng]
  have 1: "snd (shuffle_file example_rng (\<lambda>name. NoFault) ''shuffle_train_02.parquet'' (empty_world :: nat world)) = 0
      \<and> last (log_lines (fst (shuffle_file example_rng (\<lambda>name. NoFault) ''shuffle_train_02.parquet''
        (empty_world :: nat world)))) = ShuffleError"
    using nf [where w = "empty_world :: nat world" and name = "''shuffle_train_02.parquet''"
        and fault = "\<lambda>name. NoFault", THEN conjunct1]
    by (simp add: empty_world_def)
  have 2: "snd (shuffle_file example_rng (\<lambda>name. FailDuringWrite) ''shuffle_train_00.parquet'' ?w) = 0"
    using nf [where w = ?w and name = "''shuffle_train_00.parquet''"
        and fault = "\<lambda>name. FailDuringWrite", THEN conjunct1]
    by simp
  have 3: "snd (shuffle_file example_rng (\<lambda>name. NoFault) ''shuffle_train_00.parquet'' ?w) = 3"
    using nf [where w = ?w and name = "''shuffle_train_00.parquet''" and df = "[1, 2, 3]"
        and fault = "\<lambda>name. NoFault", THEN conjunct2, THEN conjunct1]
    by simp
  have dirs: "get_account_dirs example_base \<noteq> []"
    by (simp add: example_dirs)
  from nf [where w = empty_world and fault = "\<lambda>name. FailDuringWrite" and arg = None
      and base = example_base, THEN conjunct2, THEN conjunct2, rule_format, OF dirs]
  have 4: "snd (merge_main example_rng (\<lambda>name. FailDuringWrite) None example_base empty_world) = 0
    \<and> filter is_shuffle_event (stage_trace (log_lines (fst
         (merge_main example_rng (\<lambda>name. FailDuringWrite) None example_base empty_world)))) =
       map ShuffleBegins (map shard_name [0..<10])"
    by (simp add: empty_world_def stage_trace_simps NUM_PARTITIONS_def o_def)
  from 1 2 3 4 show ?thesis
    unfolding shard_names by blast
qed

subsection \<open>The order of the stages\<close>

text \<open>
  Claim C7, as the code has it.  \<^verbatim>\<open>main\<close> works shard by shard: for every partition
  it was to process, in order, it merges the shard, and once that merge has ended
  (the writer is closed) it shuffles that same shard, before the merge of the next shard
  begins.  So a shard is never shuffled before its own merge has fully written it, but
  the shuffle of a shard comes before the merge of the following shards.
\<close>

theorem merge_then_shuffle_per_shard:
  "get_account_dirs base \<noteq> [] \<longrightarrow>
     stage_trace (log_lines (fst (merge_main rng fault arg base w))) =
       stage_trace (log_lines w)
         @ concat (map (\<lambda>p. [MergeBegins p, MergeEnded, ShuffleBegins (shard_name p)])
                     (case arg of Some partition_idx \<Rightarrow> [partition_idx] | None \<Rightarrow> [0..<NUM_PARTITIONS]))"
  using merge_main_trace(2) [of base rng fault arg w] by blast

theorem merge_then_shuffle_per_shard_witness:
  "stage_trace (log_lines (fst (merge_main example_rng (\<lambda>name. NoFault) None example_base empty_world)))
     = [MergeBegins 0, MergeEnded, ShuffleBegins ''shuffle_train_00.parquet'',
        MergeBegins 1, MergeEnded, ShuffleBegins ''shuffle_train_01.parquet'',
        MergeBegins 2, MergeEnded, ShuffleBegins ''shuffle_train_02.parquet'',
        MergeBegins 3, MergeEnded, ShuffleBegins ''shuffle_train_03.parquet'',
        MergeBegins 4, MergeEnded, ShuffleBegins ''shuffle_train_04.parquet'',
        MergeBegins 5, MergeEnded, ShuffleBegins ''shuffle_train_05.parquet'',
        MergeBegins 6, MergeEnded, ShuffleBegins ''shuffle_train_06.parquet'',
        MergeBegins 7, MergeEnded, ShuffleBegins ''shuffle_train_07.parquet'',
        MergeBegins 8, MergeEnded, ShuffleBegins ''shuffle_train_08.parquet'',
        MergeBegins 9, MergeEnded, ShuffleBegins ''shuffle_train_09.parquet'']"
proof -
  have dirs: "get_account_dirs example_base \<noteq> []"
    by (simp add: example_dirs)
  from merge_then_shuffle_per_shard [where rng = example_rng and fault = "\<lambda>name. NoFault"
      and arg = None and base = example_base and w = empty_world, rule_format, OF dirs]
  show ?thesis
    by (simp add: empty_world_def stage_trace_simps NUM_PARTITIONS_def upt_rec shard_name_def
          fmt_02d_def digit_char_def)
qed

text \<open>Against claim C7 as stated: in a run over all ten partitions the shuffle of shard
  00 begins before the merge of shard 01, so not all shards are merged before any shard
  is shuffled.\<close>

theorem whole_stage_order_counterexample:
  "take 4 (stage_trace (log_lines (fst
       (merge_main example_rng (\<lambda>name. NoFault) None example_base empty_world))))
     = [MergeBegins 0, MergeEnded, ShuffleBegins ''shuffle_train_00.parquet'', MergeBegins 1]
   \<and> \<not> merge_all_before_shuffle (stage_trace (log_lines (fst
       (merge_main example_rng (\<lambda>name. NoFault) None example_base empty_world))))"
  by code_simp


section \<open>Properties of the Balancer\<close>

lemmas balancer_eval =
  final_counts_def balance_def two_level_dir_def shard_rows_def upt_rec concat_df_def
  Let_def head_df_def tail_df_def slice_df_def docs_needed_def NUM_PARTITIONS_def

subsection \<open>Phase 1\<close>

text \<open>With every source file present, Phase 1 completes: each source shard is written
  as its first \<open>T\<close> rows, and the non-empty remainders are collected in shard order.\<close>

lemma collect_Completed:
  assumes "\<forall>i\<in>set idxs. inp i \<noteq> None"
  shows "collect T inp idxs (out, ex) =
           Completed (\<lambda>i. if i \<in> set idxs then map_option (take T) (inp i) else out i,
                      ex @ filter (\<lambda>e. e \<noteq> []) (map (\<lambda>i. drop T (the (inp i))) idxs))"
  using assms
proof (induction idxs arbitrary: out ex)
  case Nil
  then show ?case by simp
next
  case (Cons i rest)
  then obtain df where df: "inp i = Some df" by auto
  from Cons.prems have rest: "\<forall>j\<in>set rest. inp j \<noteq> None" by simp
  show ?case
  proof (cases "T < length df")
    case True
    then show ?thesis
      using df Cons.IH [OF rest]
      by (auto simp: head_df_def tail_df_excess Let_def fun_eq_iff)
  next
    case False
    then show ?thesis
      using df Cons.IH [OF rest]
      by (auto simp: Let_def fun_eq_iff)
  qed
qed

lemma collect_inputs:
  "collect T inp idxs st = Completed st' \<Longrightarrow> \<forall>i\<in>set idxs. inp i \<noteq> None"
  by (induction T inp idxs st rule: collect.induct)
     (auto simp: Let_def split: option.splits if_splits)

lemma excess_none:
  assumes "\<forall>i\<in>set idxs. \<exists>df. inp i = Some df \<and> length df \<le> T"
  shows "filter (\<lambda>e. e \<noteq> []) (map (\<lambda>i. drop T (the (inp i))) idxs) = []"
  using assms by (induction idxs) auto

subsection \<open>No source shard above the target\<close>

text \<open>
  Claim C10.  If none of the source shards 00-04 holds more than \<open>T\<close> rows, the list of
  excess frames is empty when Phase 1 ends, \<^verbatim>\<open>pl.concat(excess_dfs)\<close> raises, and the
  run is aborted there: the five source shards have been copied unchanged and no sink
  shard (05-09) has been written, so the output directory holds for them what it held
  before the run.
\<close>

theorem balance_no_excess_aborts:
  assumes "\<forall>i<5. \<exists>df. inp i = Some df \<and> length df \<le> T"
  shows "balance T inp out0 = Aborted ConcatEmptyList (\<lambda>i. if i < 5 then inp i else out0 i)"
proof -
  have present: "\<forall>i\<in>set [0..<5]. inp i \<noteq> None"
    using assms by auto
  have small: "\<forall>i\<in>set [0..<5]. \<exists>df. inp i = Some df \<and> length df \<le> T"
    using assms by simp
  have kept: "(\<lambda>i. if i \<in> set [0..<5] then map_option (take T) (inp i) else out0 i)
                = (\<lambda>i. if i < 5 then inp i else out0 i)"
  proof
    fix i
    show "(if i \<in> set [0..<5] then map_option (take T) (inp i) else out0 i)
            = (if i < 5 then inp i else out0 i)"
      using assms by (cases "i < 5") auto
  qed
  show ?thesis
    unfolding balance_def collect_Completed [OF present] excess_none [OF small] kept
    by (simp add: concat_df_def)
qed

theorem balance_no_excess_witness:
  "balance 10 (two_level_dir 9 4) Map.empty =
     Aborted ConcatEmptyList (\<lambda>i. if i < 5 then two_level_dir 9 4 i else None)"
  using balance_no_excess_aborts [where T = 10 and inp = "two_level_dir 9 4" and ?out0.0 = Map.empty]
  by (simp add: two_level_dir_def shard_rows_def)

subsection \<open>Phase 2\<close>

lemma distribute_Completed:
  assumes "\<forall>i\<in>set idxs. inp i \<noteq> None"
  shows "\<exists>out' off'. distribute T inp pool idxs (out, off) = Completed (out', off')"
  using assms
proof (induction idxs arbitrary: out off)
  case Nil
  then show ?case by simp
next
  case (Cons i rest)
  then obtain df where df: "inp i = Some df" by auto
  from Cons.prems have rest: "\<forall>j\<in>set rest. inp j \<noteq> None" by simp
  show ?case
    using df Cons.IH [OF rest] by (simp add: Let_def)
qed

lemma distribute_offset:
  assumes "distribute T inp pool idxs (out, off) = Completed (out', off')" "off \<le> length pool"
  shows "off \<le> off' \<and> off' \<le> length pool"
  using assms
proof (induction idxs arbitrary: out off)
  case Nil
  then show ?case by simp
next
  case (Cons i rest)
  then show ?case
    by (fastforce simp: Let_def slice_df_length split: option.splits if_splits)
qed

lemma distribute_frame:
  assumes "distribute T inp pool idxs (out, off) = Completed (out', off')" "i \<notin> set idxs"
  shows "out' i = out i"
  using assms
proof (induction idxs arbitrary: out off)
  case Nil
  then show ?case by simp
next
  case (Cons j rest)
  then show ?case
    by (fastforce simp: Let_def split: option.splits if_splits)
qed

lemma distribute_drained:
  assumes "distribute T inp pool idxs (out, off) = Completed (out', off')" "off \<le> length pool"
    "9 \<in> set idxs \<or> off = length pool"
  shows "off' = length pool"
  using assms
proof (induction idxs arbitrary: out off)
  case Nil
  then show ?case by simp
next
  case (Cons j rest)
  from Cons.prems(1) obtain df where df: "inp j = Some df"
    by (auto split: option.splits)
  let ?needed = "docs_needed T j (length df) (length pool) off"
  show ?case
  proof (cases "?needed > 0 \<and> off < length pool")
    case True
    let ?add = "slice_df off (nat ?needed) pool"
    from True df Cons.prems(1)
    have run: "distribute T inp pool rest (out(j \<mapsto> df @ ?add), off + length ?add) = Completed (out', off')"
      by (simp add: Let_def)
    have le: "off + length ?add \<le> length pool"
      using Cons.prems(2) by (simp add: slice_df_length)
    have "9 \<in> set rest \<or> off + length ?add = length pool"
    proof (cases "j = 9")
      case True
      then have "?needed = int (length pool) - int off" by (simp add: docs_needed_def)
      then have "length ?add = length pool - off" by (simp add: slice_df_length)
      then show ?thesis using Cons.prems(2) by simp
    next
      case False
      then show ?thesis using Cons.prems(3) True by auto
    qed
    from Cons.IH [OF run le this] show ?thesis .
  next
    case False
    from False df Cons.prems(1)
    have run: "distribute T inp pool rest (out(j \<mapsto> df), off) = Completed (out', off')"
      by (auto simp add: Let_def)
    have "9 \<in> set rest \<or> off = length pool"
    proof (cases "j = 9")
      case True
      then have "?needed = int (length pool) - int off" by (simp add: docs_needed_def)
      with False Cons.prems(2) show ?thesis by auto
    next
      case False
      then show ?thesis using Cons.prems(3) by auto
    qed
    from Cons.IH [OF run Cons.prems(2) this] show ?thesis .
  qed
qed

lemma distribute_mset:
  assumes "distribute T inp pool idxs (out, off) = Completed (out', off')" "distinct idxs"
    "off \<le> length pool"
  shows "mset (rows_of out' idxs) = mset (rows_of inp idxs) + mset (take (off' - off) (drop off pool))"
  using assms
proof (induction idxs arbitrary: out off)
  case Nil
  then show ?case by (simp add: rows_of_def)
next
  case (Cons j rest)
  from Cons.prems(1) obtain df where df: "inp j = Some df"
    by (auto split: option.splits)
  from Cons.prems(2) have j: "j \<notin> set rest" and dist: "distinct rest" by simp_all
  let ?needed = "docs_needed T j (length df) (length pool) off"
  show ?case
  proof (cases "?needed > 0 \<and> off < length pool")
    case True
    let ?add = "slice_df off (nat ?needed) pool"
    let ?off2 = "off + length ?add"
    from True df Cons.prems(1)
    have run: "distribute T inp pool rest (out(j \<mapsto> df @ ?add), ?off2) = Completed (out', off')"
      by (simp add: Let_def)
    have le: "?off2 \<le> length pool"
      using Cons.prems(3) by (simp add: slice_df_length)
    from distribute_offset [OF run le] have off': "?off2 \<le> off'" by simp
    from distribute_frame [OF run j] have outj: "out' j = Some (df @ ?add)" by simp
    have add: "?add = take (?off2 - off) (drop off pool)"
      using slice_df_as_take [of off "nat ?needed" pool] by simp
    have "take (off' - off) (drop off pool) = ?add @ take (off' - ?off2) (drop ?off2 pool)"
      using take_drop_split [of off ?off2 off' pool] off' add by simp
    then show ?thesis
      using Cons.IH [OF run dist le] outj df by (simp add: rows_of_Cons)
  next
    case False
    from False df Cons.prems(1)
    have run: "distribute T inp pool rest (out(j \<mapsto> df), off) = Completed (out', off')"
      by (auto simp add: Let_def)
    from distribute_frame [OF run j] have outj: "out' j = Some df" by simp
    show ?thesis
      using Cons.IH [OF run dist Cons.prems(3)] outj df by (simp add: rows_of_Cons)
  qed
qed

lemma distribute_sink:
  assumes "distribute T inp pool idxs (out, off) = Completed (out', off')" "distinct idxs"
    "i \<in> set idxs" "i < 9" "inp i = Some df"
  shows "\<exists>add. out' i = Some (df @ add) \<and> length add \<le> T - length df"
  using assms
proof (induction idxs arbitrary: out off)
  case Nil
  then show ?case by simp
next
  case (Cons j rest)
  from Cons.prems(1) obtain dfj where dfj: "inp j = Some dfj"
    by (auto split: option.splits)
  from Cons.prems(2) have j: "j \<notin> set rest" and dist: "distinct rest" by simp_all
  let ?needed = "docs_needed T j (length dfj) (length pool) off"
  let ?add = "slice_df off (nat ?needed) pool"
  let ?hit = "?needed > 0 \<and> off < length pool"
  let ?out2 = "if ?hit then out(j \<mapsto> dfj @ ?add) else out(j \<mapsto> dfj)"
  let ?off2 = "if ?hit then off + length ?add else off"
  from dfj Cons.prems(1)
  have run: "distribute T inp pool rest (?out2, ?off2) = Completed (out', off')"
    by (auto simp add: Let_def)
  show ?case
  proof (cases "i = j")
    case True
    with Cons.prems(5) dfj have same: "dfj = df" by simp
    from distribute_frame [OF run j] have "out' j = ?out2 j" .
    moreover have "length ?add \<le> T - length df"
      using True Cons.prems(4) same by (simp add: slice_df_length docs_needed_def)
    ultimately show ?thesis using True same by (cases ?hit) auto
  next
    case False
    with Cons.prems(3) have "i \<in> set rest" by simp
    from Cons.IH [OF run dist this Cons.prems(4) Cons.prems(5)] show ?thesis .
  qed
qed

lemma distribute_inputs:
  "distribute T inp pool idxs st = Completed st' \<Longrightarrow> \<forall>i\<in>set idxs. inp i \<noteq> None"
  by (induction T inp pool idxs st rule: distribute.induct)
     (auto simp: Let_def split: option.splits if_splits)

lemma distribute_present:
  assumes "distribute T inp pool idxs (out, off) = Completed (out', off')" "i \<in> set idxs"
  shows "out' i \<noteq> None"
  using assms
proof (induction idxs arbitrary: out off)
  case Nil
  then show ?case by simp
next
  case (Cons j rest)
  from Cons.prems(1) obtain df where df: "inp j = Some df"
    by (auto split: option.splits)
  let ?needed = "docs_needed T j (length df) (length pool) off"
  let ?add = "slice_df off (nat ?needed) pool"
  let ?hit = "?needed > 0 \<and> off < length pool"
  let ?out2 = "if ?hit then out(j \<mapsto> df @ ?add) else out(j \<mapsto> df)"
  let ?off2 = "if ?hit then off + length ?add else off"
  from df Cons.prems(1)
  have run: "distribute T inp pool rest (?out2, ?off2) = Completed (out', off')"
    by (auto simp add: Let_def)
  show ?case
  proof (cases "i \<in> set rest")
    case True
    from Cons.IH [OF run True] show ?thesis .
  next
    case False
    with Cons.prems(2) have "i = j" by simp
    with distribute_frame [OF run False] show ?thesis by simp
  qed
qed

lemma balance_Completed_phases:
  assumes "balance T inp out0 = Completed out"
  obtains mid pool off where
    "collect T inp [0..<5] (out0, []) = Completed (mid, pool)"
    "pool \<noteq> []"
    "distribute T inp (concat pool) [5..<10] (mid, 0) = Completed (out, off)"
  using assms
  by (auto simp: balance_def concat_df_def NUM_PARTITIONS_def split: run.splits prod.splits sum.splits if_splits)

subsection \<open>The Distribute step\<close>

text \<open>
  Claim C3.  In Phase 2 a sink shard before the last (index below 9) whose deficit
  \<open>T - count\<close> is positive, met while the cursor is inside the pool, is written as its
  input followed by exactly \<open>min deficit remaining\<close> pool rows taken at the cursor, and the
  cursor advances by that number; with no deficit or an exhausted pool it is copied
  unchanged.  The last sink shard (index 9) is written as its input followed by all the
  pool rows from the cursor on, and the cursor ends at the pool's length: after the
  loop over 05-09 the pool is fully drained, and the sinks hold their inputs plus exactly
  the pool.  In the scenario of five source shards of 12 rows and five sink shards of 7
  rows with \<open>T = 10\<close>, the pool has 10 rows, the sinks 05-08 end at 10, 10, 10, 8 rows and
  the absorber 09 stays at 7.
\<close>

theorem distribute_pulls_and_drains:
  "(partition_idx < 9 \<and> inp partition_idx = Some df \<and> length df < T \<and> off < length pool \<longrightarrow>
      distribute T inp pool (partition_idx # rest) (out, off) =
      distribute T inp pool rest
        (out(partition_idx \<mapsto> df @ take (min (T - length df) (length pool - off)) (drop off pool)),
         off + min (T - length df) (length pool - off)))
   \<and> (partition_idx < 9 \<and> inp partition_idx = Some df \<and> (T \<le> length df \<or> length pool \<le> off) \<longrightarrow>
      distribute T inp pool (partition_idx # rest) (out, off) =
      distribute T inp pool rest (out(partition_idx \<mapsto> df), off))
   \<and> (inp 9 = Some df \<and> off \<le> length pool \<longrightarrow>
      distribute T inp pool (9 # rest) (out, off) =
      distribute T inp pool rest (out(9 \<mapsto> df @ drop off pool), length pool))
   \<and> ((\<forall>i\<in>{5..<10}. inp i \<noteq> None) \<longrightarrow>
      (\<exists>out'. distribute T inp pool [5..<NUM_PARTITIONS] (out, 0) = Completed (out', length pool)
         \<and> mset (rows_of out' [5..<10]) = mset (rows_of inp [5..<10]) + mset pool))
   \<and> final_counts (balance 10 (two_level_dir 12 7) Map.empty) [0..<10]
        = [Some 10, Some 10, Some 10, Some 10, Some 10, Some 10, Some 10, Some 10, Some 8, Some 7]"
proof (intro conjI impI)
  assume a: "partition_idx < 9 \<and> inp partition_idx = Some df \<and> length df < T \<and> off < length pool"
  then have "nat (int T - int (length df)) = T - length df"
    by linarith
  then have "slice_df off (nat (int T - int (length df))) pool
               = take (min (T - length df) (length pool - off)) (drop off pool)"
    by (simp add: slice_df_def min_def)
  with a show "distribute T inp pool (partition_idx # rest) (out, off) =
      distribute T inp pool rest
        (out(partition_idx \<mapsto> df @ take (min (T - length df) (length pool - off)) (drop off pool)),
         off + min (T - length df) (length pool - off))"
    by (simp add: Let_def docs_needed_def)
next
  assume "partition_idx < 9 \<and> inp partition_idx = Some df \<and> (T \<le> length df \<or> length pool \<le> off)"
  then show "distribute T inp pool (partition_idx # rest) (out, off) =
      distribute T inp pool rest (out(partition_idx \<mapsto> df), off)"
    by (auto simp add: Let_def docs_needed_def)
next
  assume "inp 9 = Some df \<and> off \<le> length pool"
  then show "distribute T inp pool (9 # rest) (out, off) =
      distribute T inp pool rest (out(9 \<mapsto> df @ drop off pool), length pool)"
    by (auto simp add: Let_def docs_needed_def slice_df_def)
next
  assume "\<forall>i\<in>{5..<10}. inp i \<noteq> None"
  then have present: "\<forall>i\<in>set [5..<10]. inp i \<noteq> None"
    by (simp only: set_upt)
  from distribute_Completed [OF present] obtain out' off' where
    run: "distribute T inp pool [5..<10] (out, 0) = Completed (out', off')" by blast
  have "9 \<in> set [5..<10]" by (simp only: set_upt) simp
  then have off': "off' = length pool"
    using distribute_drained [OF run] by simp
  from distribute_mset [OF run] off'
  have "mset (rows_of out' [5..<10]) = mset (rows_of inp [5..<10]) + mset pool" by simp
  with run off' show "\<exists>out'. distribute T inp pool [5..<NUM_PARTITIONS] (out, 0) = Completed (out', length pool)
         \<and> mset (rows_of out' [5..<10]) = mset (rows_of inp [5..<10]) + mset pool"
    by (auto simp: NUM_PARTITIONS_def)
next
  show "final_counts (balance 10 (two_level_dir 12 7) Map.empty) [0..<10]
        = [Some 10, Some 10, Some 10, Some 10, Some 10, Some 10, Some 10, Some 10, Some 8, Some 7]"
    by (simp add: balancer_eval)
qed

theorem distribute_pulls_and_drains_witness:
  "distribute 10 (two_level_dir 12 7) (shard_rows 0 10) [5] (Map.empty, 0)
     = Completed ([5 \<mapsto> shard_rows 5 7 @ take 3 (shard_rows 0 10)], 3)
   \<and> distribute 10 (two_level_dir 12 7) (shard_rows 0 10) [8] (Map.empty, 10)
     = Completed ([8 \<mapsto> shard_rows 8 7], 10)
   \<and> distribute 10 (two_level_dir 12 7) (shard_rows 0 10) [9] (Map.empty, 4)
     = Completed ([9 \<mapsto> shard_rows 9 7 @ drop 4 (shard_rows 0 10)], 10)
   \<and> (\<exists>out'. distribute 10 (two_level_dir 12 7) (shard_rows 0 10) [5..<NUM_PARTITIONS] (Map.empty, 0)
                = Completed (out', 10)
         \<and> mset (rows_of out' [5..<10])
           = mset (rows_of (two_level_dir 12 7) [5..<10]) + mset (shard_rows 0 10))"
proof -
  let ?inp = "two_level_dir 12 7" and ?pool = "shard_rows 0 10"
  note inst = distribute_pulls_and_drains
    [where inp = ?inp and pool = ?pool and T = 10 and out = Map.empty and rest = "[]"]
  have len: "length ?pool = 10" by (simp add: shard_rows_def)
  have 1: "distribute 10 ?inp ?pool [5] (Map.empty, 0)
     = Completed ([5 \<mapsto> shard_rows 5 7 @ take 3 ?pool], 3)"
    using inst [where partition_idx = 5 and df = "shard_rows 5 7" and off = 0, THEN conjunct1]
    by (simp add: two_level_dir_def len) (simp add: shard_rows_def)
  have 2: "distribute 10 ?inp ?pool [8] (Map.empty, 10) = Completed ([8 \<mapsto> shard_rows 8 7], 10)"
    using inst [where partition_idx = 8 and df = "shard_rows 8 7" and off = 10, THEN conjunct2, THEN conjunct1]
    by (simp add: two_level_dir_def len)
  have 3: "distribute 10 ?inp ?pool [9] (Map.empty, 4)
     = Completed ([9 \<mapsto> shard_rows 9 7 @ drop 4 ?pool], 10)"
    using inst [where df = "shard_rows 9 7" and off = 4, THEN conjunct2, THEN conjunct2, THEN conjunct1]
    by (simp add: two_level_dir_def len)
  have 4: "\<exists>out'. distribute 10 ?inp ?pool [5..<NUM_PARTITIONS] (Map.empty, 0) = Completed (out', 10)
         \<and> mset (rows_of out' [5..<10]) = mset (rows_of ?inp [5..<10]) + mset ?pool"
    using inst [where off = 0, THEN conjunct2, THEN conjunct2, THEN conjunct2, THEN conjunct1]
    by (simp add: two_level_dir_def len)
  from 1 2 3 4 show ?thesis by blast
qed

subsection \<open>Capping\<close>

text \<open>
  Claim C4, as the code has it.  After a completed run every source shard 00-04 holds
  exactly the first \<open>T\<close> rows of its input, in their order: \<open>T\<close> rows if it started
  above \<open>T\<close>, its whole input if it started at or below \<open>T\<close>.  Every sink shard 05-08
  holds its input followed by rows pulled from the pool; it ends with at most \<open>T\<close> rows
  if it started at or below \<open>T\<close>, and is copied unchanged if it started above \<open>T\<close>
  (the guard \<^verbatim>\<open>docs_needed > 0\<close>), so a sink that starts above \<open>T\<close> stays above it.
\<close>

theorem balance_capping:
  assumes "balance T inp out0 = Completed out"
  shows "(\<forall>i<5. \<exists>df. inp i = Some df \<and> out i = Some (take T df) \<and>
            (T < length df \<longrightarrow> length (take T df) = T) \<and> (length df \<le> T \<longrightarrow> take T df = df))
       \<and> (\<forall>i\<in>{5..<9}. \<exists>df add. inp i = Some df \<and> out i = Some (df @ add) \<and>
            (length df \<le> T \<longrightarrow> length (df @ add) \<le> T) \<and> (T < length df \<longrightarrow> add = []))"
proof -
  from assms obtain mid pool off where
    ph1: "collect T inp [0..<5] (out0, []) = Completed (mid, pool)" and
    ph2: "distribute T inp (concat pool) [5..<10] (mid, 0) = Completed (out, off)"
    by (rule balance_Completed_phases)
  from collect_inputs [OF ph1] have src: "\<forall>i\<in>set [0..<5]. inp i \<noteq> None" .
  from ph1 collect_Completed [OF src, of T out0 "[]"]
  have mid: "mid = (\<lambda>i. if i \<in> set [0..<5] then map_option (take T) (inp i) else out0 i)"
    by simp
  have sources: "\<exists>df. inp i = Some df \<and> out i = Some (take T df) \<and>
            (T < length df \<longrightarrow> length (take T df) = T) \<and> (length df \<le> T \<longrightarrow> take T df = df)"
    if "i < 5" for i
  proof -
    from that have "i \<in> set [0..<5]"
      by (simp only: set_upt) simp
    with src obtain df where df: "inp i = Some df" by blast
    from that have "i \<notin> set [5..<10]"
      by (simp only: set_upt) simp
    from distribute_frame [OF ph2 this] have "out i = mid i" .
    with that df mid show ?thesis by simp
  qed
  have sinks: "\<exists>df add. inp i = Some df \<and> out i = Some (df @ add) \<and>
            (length df \<le> T \<longrightarrow> length (df @ add) \<le> T) \<and> (T < length df \<longrightarrow> add = [])"
    if "i \<in> {5..<9}" for i
  proof -
    from that have mem: "i \<in> set [5..<10]"
      by (simp only: set_upt) simp
    from that have lt: "i < 9" by simp
    from distribute_inputs [OF ph2] mem obtain df where df: "inp i = Some df" by auto
    from distribute_sink [OF ph2 _ mem lt df] obtain add where
      "out i = Some (df @ add)" "length add \<le> T - length df" by auto
    with df show ?thesis by auto
  qed
  from sources sinks show ?thesis by blast
qed

theorem balance_capping_witness:
  "\<exists>out. balance 10 ((two_level_dir 12 7)(5 \<mapsto> shard_rows 5 11)) Map.empty = Completed out
     \<and> out 0 = Some (take 10 (shard_rows 0 12))
     \<and> out 5 = Some (shard_rows 5 11)
     \<and> (\<exists>add. out 6 = Some (shard_rows 6 7 @ add) \<and> length (shard_rows 6 7 @ add) \<le> 10)"
proof -
  let ?inp = "(two_level_dir 12 7)(5 \<mapsto> shard_rows 5 11)"
  have "\<exists>out. balance 10 ?inp Map.empty = Completed out"
    by (simp add: balancer_eval)
  then obtain out where run: "balance 10 ?inp Map.empty = Completed out" ..
  note capped = balance_capping [OF run]
  have "(0::nat) < 5" by simp
  with capped [THEN conjunct1] have "\<exists>df. ?inp 0 = Some df \<and> out 0 = Some (take 10 df)"
    by blast
  then have src: "out 0 = Some (take 10 (shard_rows 0 12))"
    by (simp add: two_level_dir_def)
  have "(5::nat) \<in> {5..<9}" by simp
  from capped [THEN conjunct2, THEN bspec, OF this]
  have "\<exists>df add. ?inp 5 = Some df \<and> out 5 = Some (df @ add) \<and> (10 < length df \<longrightarrow> add = [])"
    by blast
  then have above: "out 5 = Some (shard_rows 5 11)"
    by (auto simp: shard_rows_def)
  have "(6::nat) \<in> {5..<9}" by simp
  from capped [THEN conjunct2, THEN bspec, OF this]
  have "\<exists>df add. ?inp 6 = Some df \<and> out 6 = Some (df @ add)
          \<and> (length df \<le> 10 \<longrightarrow> length (df @ add) \<le> 10)"
    by blast
  then have below: "\<exists>add. out 6 = Some (shard_rows 6 7 @ add) \<and> length (shard_rows 6 7 @ add) \<le> 10"
    by (auto simp: two_level_dir_def shard_rows_def)
  from run src above below show ?thesis by blast
qed

text \<open>Against claim C4 as stated: with \<open>T = 10\<close>, source shards of 12 rows and sink
  shard 05 holding 11 rows, the run completes and shard 05, which is not the absorber,
  ends with 11 rows.\<close>

theorem sink_above_target_counterexample:
  "final_counts (balance 10 ((two_level_dir 12 7)(5 \<mapsto> shard_rows 5 11)) Map.empty) [5..<9]
     = [Some 11, Some 10, Some 10, Some 10] \<and> (10::nat) < 11"
  by (simp add: balancer_eval)

subsection \<open>Conservation\<close>

text \<open>A completed run only moves rows: the ten output shards hold, as a multiset,
  exactly the rows of the ten input shards.\<close>

lemma kept_plus_excess:
  assumes "\<forall>i\<in>set idxs. inp i \<noteq> None"
  shows "mset (rows_of (\<lambda>i. map_option (take T) (inp i)) idxs)
           + mset (concat (map (\<lambda>i. drop T (the (inp i))) idxs))
         = mset (rows_of inp idxs)"
  using assms
proof (induction idxs)
  case Nil
  then show ?case by (simp add: rows_of_def)
next
  case (Cons i rest)
  then obtain df where df: "inp i = Some df" by auto
  have "mset (take T df) + mset (drop T df) = mset df"
    by (metis append_take_drop_id mset_append)
  with Cons df show ?case
    by (simp add: rows_of_Cons add.assoc [symmetric]) (simp add: ac_simps)
qed

lemma upt_0_10_split: "[0..<10] = [0..<5] @ [5..<10]"
  using upt_add_eq_append [of 0 5 5] by simp

lemma balance_conserves:
  assumes "balance T inp out0 = Completed out"
  shows "mset (rows_of out [0..<10]) = mset (rows_of inp [0..<10])"
proof -
  from assms obtain mid pool off where
    ph1: "collect T inp [0..<5] (out0, []) = Completed (mid, pool)" and
    ph2: "distribute T inp (concat pool) [5..<10] (mid, 0) = Completed (out, off)"
    by (rule balance_Completed_phases)
  from collect_inputs [OF ph1] have src: "\<forall>i\<in>set [0..<5]. inp i \<noteq> None" .
  from ph1 collect_Completed [OF src, of T out0 "[]"]
  have mid: "mid = (\<lambda>i. if i \<in> set [0..<5] then map_option (take T) (inp i) else out0 i)"
    and pool: "pool = filter (\<lambda>e. e \<noteq> []) (map (\<lambda>i. drop T (the (inp i))) [0..<5])"
    by simp_all
  have "9 \<in> set [5..<10]" by (simp only: set_upt) simp
  then have "off = length (concat pool)"
    using distribute_drained [OF ph2] by simp
  with distribute_mset [OF ph2]
  have sinks: "mset (rows_of out [5..<10]) = mset (rows_of inp [5..<10]) + mset (concat pool)"
    by simp
  have "rows_of out [0..<5] = rows_of (\<lambda>i. map_option (take T) (inp i)) [0..<5]"
  proof (rule rows_of_cong)
    fix i assume i: "i \<in> set [0..<5]"
    then have "i \<notin> set [5..<10]" by (simp only: set_upt) simp
    from distribute_frame [OF ph2 this] i mid
    show "out i = map_option (take T) (inp i)" by simp
  qed
  moreover have "concat pool = concat (map (\<lambda>i. drop T (the (inp i))) [0..<5])"
    unfolding pool by (rule concat_filter_nonempty)
  ultimately have "mset (rows_of out [0..<5]) + mset (concat pool) = mset (rows_of inp [0..<5])"
    using kept_plus_excess [OF src, of T] by simp
  with sinks show ?thesis
    unfolding upt_0_10_split rows_of_append by (simp add: ac_simps)
qed

lemma count_rows_present:
  assumes "\<forall>i\<in>set idxs. out i \<noteq> None"
  shows "count_rows out idxs = Inr (map (\<lambda>i. length (the (out i))) idxs)"
  using assms by (induction idxs) auto

lemma length_rows_of:
  assumes "\<forall>i\<in>set idxs. out i \<noteq> None"
  shows "sum_list (map (\<lambda>i. length (the (out i))) idxs) = length (rows_of out idxs)"
  using assms by (induction idxs) (auto simp: rows_of_Cons rows_of_def)

lemma balance_outputs_present:
  assumes "balance T inp out0 = Completed out"
  shows "\<forall>i\<in>set [0..<10]. out i \<noteq> None"
proof
  fix i assume i: "i \<in> set [0..<10]"
  from assms obtain mid pool off where
    ph1: "collect T inp [0..<5] (out0, []) = Completed (mid, pool)" and
    ph2: "distribute T inp (concat pool) [5..<10] (mid, 0) = Completed (out, off)"
    by (rule balance_Completed_phases)
  show "out i \<noteq> None"
  proof (cases "i \<in> set [5..<10]")
    case True
    from distribute_present [OF ph2 True] show ?thesis .
  next
    case False
    with i have src: "i \<in> set [0..<5]"
      unfolding upt_0_10_split by simp
    from collect_inputs [OF ph1] have present: "\<forall>i\<in>set [0..<5]. inp i \<noteq> None" .
    from ph1 collect_Completed [OF present, of T out0 "[]"]
    have "mid = (\<lambda>i. if i \<in> set [0..<5] then map_option (take T) (inp i) else out0 i)"
      by simp
    with src present have "mid i \<noteq> None" by simp
    with distribute_frame [OF ph2 False] show ?thesis by simp
  qed
qed

text \<open>The total that the final verification reports after a completed run is the
  number of input rows.\<close>

lemma final_total_conserved:
  assumes "balance T inp out0 = Completed out"
  shows "final_total out = Inr (length (rows_of inp [0..<10]))"
proof -
  from balance_outputs_present [OF assms] have present: "\<forall>i\<in>set [0..<10]. out i \<noteq> None" .
  have "final_total out = Inr (length (rows_of out [0..<10]))"
    by (simp only: final_total_def NUM_PARTITIONS_def count_rows_present [OF present]
          length_rows_of [OF present] sum.case)
  moreover have "length (rows_of out [0..<10]) = length (rows_of inp [0..<10])"
    using balance_conserves [OF assms] by (metis size_mset)
  ultimately show ?thesis by simp
qed

text \<open>Claim C2 on an input without excess: ten shards of 8 and 6 rows with \<open>T = 10\<close>.  The
  run is aborted at the concatenation, and the output directory holds 40 of the 70 input
  rows.\<close>

theorem no_excess_loses_sinks:
  "balance 10 (two_level_dir 8 6) Map.empty = Aborted ConcatEmptyList (output_of (balance 10 (two_level_dir 8 6) Map.empty))
   \<and> length (rows_of (output_of (balance 10 (two_level_dir 8 6) Map.empty)) [0..<10]) = 40
   \<and> length (rows_of (two_level_dir 8 6) [0..<10]) = 70"
  by (simp add: balancer_eval output_of_def rows_of_def)


section \<open>Properties of the filtering path\<close>

text \<open>
  Claim C9.  When both files exist and their row counts differ, \<^verbatim>\<open>main\<close> prints the
  mismatch with both counts as its last line, returns 1 (a nonzero exit status) and has
  written no output file.  When the counts agree the mismatch is not reported and the run
  goes on to the filtering; with at least one row it returns 0 after writing the three
  output files.
\<close>

theorem count_mismatch_aborts:
  "(queries_file args = Some qs \<and> neighbors_file args = Some ns \<and> length qs \<noteq> length ns \<longrightarrow>
       outcome (filter_main account_of args) = Returned 1
       \<and> exit_status (outcome (filter_main account_of args)) \<noteq> 0
       \<and> printed (filter_main account_of args) =
           [Banner (min_neighbors args), ReadingInputs, RowCounts (length qs) (length ns),
            RowCountMismatch (length qs) (length ns)]
       \<and> \<not> wrote_output (filter_main account_of args))
   \<and> (queries_file args = Some qs \<and> neighbors_file args = Some ns \<and> length qs = length ns \<longrightarrow>
       RowCountMismatch (length qs) (length ns) \<notin> set (printed (filter_main account_of args))
       \<and> FilteringQueries (min_neighbors args) \<in> set (printed (filter_main account_of args)))
   \<and> (queries_file args = Some qs \<and> neighbors_file args = Some ns \<and> length qs = length ns
        \<and> qs \<noteq> [] \<longrightarrow>
       outcome (filter_main account_of args) = Returned 0
       \<and> queries_parquet (filter_main account_of args) \<noteq> None
       \<and> neighbors_parquet (filter_main account_of args) \<noteq> None
       \<and> id_mapping_csv (filter_main account_of args) \<noteq> None)"
  by (auto simp: filter_main_def Let_def wrote_output_def)

theorem count_mismatch_aborts_witness:
  "outcome (filter_main (\<lambda>q. ''unknown'') (example_args 3 2)) = Returned 1
   \<and> printed (filter_main (\<lambda>q. ''unknown'') (example_args 3 2)) =
        [Banner 1, ReadingInputs, RowCounts 3 2, RowCountMismatch 3 2]
   \<and> \<not> wrote_output (filter_main (\<lambda>q. ''unknown'') (example_args 3 2))
   \<and> outcome (filter_main (\<lambda>q. ''unknown'') (example_args 3 3)) = Returned 0
   \<and> queries_parquet (filter_main (\<lambda>q. ''unknown'') (example_args 3 3)) \<noteq> None
   \<and> FilteringQueries 1 \<in> set (printed (filter_main (\<lambda>q. ''unknown'') (example_args 3 3)))"
proof -
  let ?acc = "\<lambda>q :: string. ''unknown''"
  let ?qs = "\<lambda>n. map (\<lambda>i. (int i, ''q'')) [0..<n]"
  let ?ns = "\<lambda>m. map (\<lambda>i. (int i, Some [0..<i])) [0..<m]"
  have bad: "queries_file (example_args 3 2) = Some (?qs 3) \<and> neighbors_file (example_args 3 2) = Some (?ns 2)
      \<and> length (?qs 3) \<noteq> length (?ns 2)"
    by (simp add: example_args_def)
  have good: "queries_file (example_args 3 3) = Some (?qs 3) \<and> neighbors_file (example_args 3 3) = Some (?ns 3)
      \<and> length (?qs 3) = length (?ns 3) \<and> ?qs 3 \<noteq> []"
    by (simp add: example_args_def upt_rec)
  note inst = count_mismatch_aborts [where account_of = ?acc]
  from inst [where args = "example_args 3 2" and qs = "?qs 3" and ns = "?ns 2", THEN conjunct1,
      rule_format, OF bad]
  have 1: "outcome (filter_main ?acc (example_args 3 2)) = Returned 1
     \<and> printed (filter_main ?acc (example_args 3 2)) = [Banner 1, ReadingInputs, RowCounts 3 2, RowCountMismatch 3 2]
     \<and> \<not> wrote_output (filter_main ?acc (example_args 3 2))"
    by (simp add: example_args_def)
  from good have good': "queries_file (example_args 3 3) = Some (?qs 3) \<and> neighbors_file (example_args 3 3) = Some (?ns 3)
      \<and> length (?qs 3) = length (?ns 3)"
    by blast
  from inst [where args = "example_args 3 3" and qs = "?qs 3" and ns = "?ns 3", THEN conjunct2,
      THEN conjunct1, rule_format, OF good']
  have 2: "FilteringQueries 1 \<in> set (printed (filter_main ?acc (example_args 3 3)))"
    by (simp add: example_args_def)
  from inst [where args = "example_args 3 3" and qs = "?qs 3" and ns = "?ns 3", THEN conjunct2,
      THEN conjunct2, rule_format, OF good]
  have 3: "outcome (filter_main ?acc (example_args 3 3)) = Returned 0
     \<and> queries_parquet (filter_main ?acc (example_args 3 3)) \<noteq> None"
    by simp
  from 1 2 3 show ?thesis by blast
qed

text \<open>Two empty tables pass the row-count check and then raise at the percentages,
  before anything is written.\<close>

lemma empty_tables_raise:
  "outcome (filter_main (\<lambda>q. ''unknown'') (example_args 0 0)) = Raised ZeroDivisionError
   \<and> \<not> wrote_output (filter_main (\<lambda>q. ''unknown'') (example_args 0 0))"
  by (simp add: filter_main_def example_args_def Let_def wrote_output_def)

end
